theory Spec2Isabelle
  imports Complex_Main "HOL-Library.Word"
begin

section \<open>The SAT-to-3-SAT reducer (reductionSAT\_3SAT.cpp)\<close>

text \<open>
  A literal is a non-zero C++ \<open>int\<close> in DIMACS convention; the struct \<open>Clause\<close> of the
  reducer has the single field \<open>literals\<close>, so a clause is the list of its literals.
  C++ \<open>int\<close> is modelled by \<open>int\<close>: the counter \<open>nextAuxVar\<close> only grows by the number of
  clauses emitted, and no claim depends on 32-bit wrap-around.
\<close>

type_synonym RClause = "int list"

record CNFFormula =
  numVars :: int
  numClauses :: int
  clauses :: "RClause list"

text \<open>The integer fields of \<open>ReductionStats\<close> (the size distribution, the two floating
  point ratios and the elapsed time are not modelled).\<close>

record ReductionStats =
  originalVars :: int
  originalClauses :: int
  reducedVars :: int
  reducedClauses :: int
  auxVarsAdded :: int
  totalLiteralsOriginal :: int
  totalLiteralsReduced :: int

text \<open>The private member \<open>nextAuxVar\<close> is threaded through: every helper takes the
  counter first and returns the clauses it built with the counter after its increments.\<close>

definition reduceSize1 :: "int \<Rightarrow> int \<Rightarrow> RClause list \<times> int" where
  "reduceSize1 nextAuxVar lit =
     (let y = nextAuxVar;
          z = nextAuxVar + 1
      in ([[lit, y, z], [lit, y, - z], [lit, - y, z], [lit, - y, - z]], nextAuxVar + 2))"

definition reduceSize2 :: "int \<Rightarrow> int \<Rightarrow> int \<Rightarrow> RClause list \<times> int" where
  "reduceSize2 nextAuxVar lit1 lit2 =
     (let y = nextAuxVar
      in ([[lit1, lit2, y], [lit1, lit2, - y]], nextAuxVar + 1))"

definition reduceSizeK :: "int \<Rightarrow> int list \<Rightarrow> RClause list \<times> int" where
  "reduceSizeK nextAuxVar lits =
     (let k = length lits in
      if k < 4 then ([], nextAuxVar)
      else
        let auxVars = map (\<lambda>i. nextAuxVar + int i) [0 ..< k - 3];
            first = [lits ! 0, lits ! 1, auxVars ! 0];
            middle = map (\<lambda>i. [- (auxVars ! i), lits ! (i + 2), auxVars ! (i + 1)]) [0 ..< k - 4];
            final = [- (auxVars ! (k - 4)), lits ! (k - 2), lits ! (k - 1)]
        in (first # middle @ [final], nextAuxVar + int (k - 3)))"

text \<open>The clause loop of \<open>reduce\<close>: one clause at a time, the emitted clauses appended to
  the output in order, the counter carried to the next clause.\<close>

fun reduce_loop :: "int \<Rightarrow> RClause list \<Rightarrow> RClause list \<times> int" where
  "reduce_loop nextAuxVar [] = ([], nextAuxVar)"
| "reduce_loop nextAuxVar (clause # rest) =
     (let size = length clause in
      if size = 0 then reduce_loop nextAuxVar rest
      else if size = 1 then
        (let (newClauses, n1) = reduceSize1 nextAuxVar (clause ! 0);
             (out, n2) = reduce_loop n1 rest
         in (newClauses @ out, n2))
      else if size = 2 then
        (let (newClauses, n1) = reduceSize2 nextAuxVar (clause ! 0) (clause ! 1);
             (out, n2) = reduce_loop n1 rest
         in (newClauses @ out, n2))
      else if size = 3 then
        (let (out, n2) = reduce_loop nextAuxVar rest
         in (clause # out, n2))
      else
        (let (newClauses, n1) = reduceSizeK nextAuxVar clause;
             (out, n2) = reduce_loop n1 rest
         in (newClauses @ out, n2)))"

definition reduce :: "CNFFormula \<Rightarrow> CNFFormula \<times> ReductionStats" where
  "reduce original =
     (let (reducedClauseList, nextAuxVar) = reduce_loop (numVars original + 1) (clauses original);
          reduced = \<lparr> numVars = nextAuxVar - 1,
                      numClauses = int (length reducedClauseList),
                      clauses = reducedClauseList \<rparr>;
          stats = \<lparr> originalVars = numVars original,
                    originalClauses = int (length (clauses original)),
                    reducedVars = numVars reduced,
                    reducedClauses = numClauses reduced,
                    auxVarsAdded = numVars reduced - numVars original,
                    totalLiteralsOriginal = (\<Sum>c\<leftarrow>clauses original. int (length c)),
                    totalLiteralsReduced = (\<Sum>c\<leftarrow>clauses reduced. int (length c)) \<rparr>
      in (reduced, stats))"

subsection \<open>The replacement table of the specification\<close>

text \<open>The per-size rules as the specification words them: the chain of a clause
  \<open>x\<^sub>1 \<dots> x\<^sub>k\<close> with \<open>k \<ge> 4\<close> starts with \<open>(x\<^sub>1 \<or> x\<^sub>2 \<or> y\<^sub>1)\<close>, goes on with
  \<open>(\<not>y\<^sub>i \<or> x\<^sub>i\<^sub>+\<^sub>2 \<or> y\<^sub>i\<^sub>+\<^sub>1)\<close> and ends with \<open>(\<not>y\<^sub>k\<^sub>-\<^sub>3 \<or> x\<^sub>k\<^sub>-\<^sub>1 \<or> x\<^sub>k)\<close>.\<close>

fun spec_chain :: "int \<Rightarrow> int list \<Rightarrow> RClause list" where
  "spec_chain y (x # a # b # xs) = [- y, x, y + 1] # spec_chain (y + 1) (a # b # xs)"
| "spec_chain y [a, b] = [[- y, a, b]]"
| "spec_chain y [a] = []"
| "spec_chain y [] = []"

fun spec_rule :: "int \<Rightarrow> int list \<Rightarrow> RClause list" where
  "spec_rule y [] = [[]]"
| "spec_rule y [x] = [[x, y, y + 1], [x, y, - (y + 1)], [x, - y, y + 1], [x, - y, - (y + 1)]]"
| "spec_rule y [a, b] = [[a, b, y], [a, b, - y]]"
| "spec_rule y [a, b, c] = [[a, b, c]]"
| "spec_rule y (x1 # x2 # xs) = [x1, x2, y] # spec_chain y xs"

fun spec_aux :: "int list \<Rightarrow> nat" where
  "spec_aux [] = 0"
| "spec_aux [x] = 2"
| "spec_aux [a, b] = 1"
| "spec_aux [a, b, c] = 0"
| "spec_aux xs = length xs - 3"

subsection \<open>Satisfaction\<close>

text \<open>An assignment gives a variable the value true, false or none (unset); a literal is
  true when its variable is set to the literal's polarity, a clause is satisfied when one
  of its literals is true, a formula when all of its clauses are.\<close>

type_synonym valuation = "int \<Rightarrow> bool option"

definition lit_true :: "valuation \<Rightarrow> int \<Rightarrow> bool" where
  "lit_true A l = (if l > 0 then A l = Some True else if l < 0 then A (- l) = Some False else False)"

definition clause_sat :: "valuation \<Rightarrow> RClause \<Rightarrow> bool" where
  "clause_sat A c = (\<exists>l \<in> set c. lit_true A l)"

definition formula_sat :: "valuation \<Rightarrow> RClause list \<Rightarrow> bool" where
  "formula_sat A cs = (\<forall>c \<in> set cs. clause_sat A c)"

text \<open>The invariant of the data model: every literal has its variable in \<open>[1, N]\<close>.\<close>

definition wf_formula :: "CNFFormula \<Rightarrow> bool" where
  "wf_formula F = (\<forall>c \<in> set (clauses F). \<forall>l \<in> set c. 1 \<le> \<bar>l\<bar> \<and> \<bar>l\<bar> \<le> numVars F)"

section \<open>The witness verifier (SATVerifcator.cpp)\<close>

text \<open>
  A \<open>std::vector\<close> read or written with \<open>operator[]\<close> outside its bounds is undefined
  behaviour; the model makes it the value \<open>None\<close>, so that "the verifier never fails" is a
  statement about the model: no run reaches \<open>None\<close>.
\<close>

definition vec_at :: "'a list \<Rightarrow> int \<Rightarrow> 'a option" where
  "vec_at v i = (if 0 \<le> i \<and> i < int (length v) then Some (v ! nat i) else None)"

definition vec_set :: "'a list \<Rightarrow> int \<Rightarrow> 'a \<Rightarrow> 'a list option" where
  "vec_set v i x = (if 0 \<le> i \<and> i < int (length v) then Some (v[nat i := x]) else None)"

type_synonym VClause = "int list"

text \<open>\<open>Clause::isSatisfied\<close>: the entries of the assignment vector are \<open>int8_t\<close>, with
  \<open>-1\<close> for unset, \<open>0\<close> for false and \<open>1\<close> for true. Literals are C++ \<open>int\<close>s modelled
  by \<open>int\<close>; the one literal whose \<open>abs\<close> overflows, \<open>INT_MIN\<close>, is outside the model.\<close>

fun isSatisfied :: "VClause \<Rightarrow> 8 word list \<Rightarrow> bool option" where
  "isSatisfied [] assignment = Some False"
| "isSatisfied (lit # lits) assignment =
     (let var = \<bar>lit\<bar>;
          sign = (lit > 0)
      in if var < int (length assignment) then
           (case vec_at assignment var of
              None \<Rightarrow> None
            | Some a \<Rightarrow>
                if a \<noteq> - 1 then
                  (let varValue = (a = 1)
                   in if varValue = sign then Some True else isSatisfied lits assignment)
                else isSatisfied lits assignment)
         else isSatisfied lits assignment)"

record CNFInstance =
  inst_numVars :: int
  inst_numClauses :: int
  inst_clauses :: "VClause list"

record Solution =
  assignment :: "8 word list"
  sol_numVars :: int

text \<open>The exceptions of \<open>SolutionParser::parse\<close>: \<open>std::runtime_error\<close> when the file
  cannot be opened, \<open>std::length_error\<close> from \<open>resize\<close> in the constructor,
  \<open>std::out_of_range\<close> from \<open>substr\<close>; \<open>VectorOutOfBounds\<close> stands for an
  \<open>operator[]\<close> outside the vector.\<close>

datatype parse_failure = CannotOpen | LengthError | SubstrOutOfRange | VectorOutOfBounds

text \<open>The constructor \<open>Solution(vars)\<close> resizes the vector to \<open>vars + 1\<close> entries, all unset.
  \<open>resize\<close> takes a \<open>size_t\<close>: a negative \<open>vars + 1\<close> converts to a value above
  \<open>max_size()\<close>, and \<open>resize\<close> throws \<open>std::length_error\<close>. The count is a C++ \<open>int\<close>
  modelled by \<open>int\<close>; the overflow of \<open>vars + 1\<close> at \<open>INT_MAX\<close> and a failed allocation
  are outside the model.\<close>

definition Solution_new :: "int \<Rightarrow> parse_failure + Solution" where
  "Solution_new vars =
     (if vars + 1 < 0 then Inl LengthError
      else Inr \<lparr> assignment = replicate (nat (vars + 1)) (- 1), sol_numVars = vars \<rparr>)"

definition setLiteral :: "Solution \<Rightarrow> int \<Rightarrow> Solution option" where
  "setLiteral s lit =
     (let var = \<bar>lit\<bar>;
          val = (lit > 0)
      in if var \<ge> 0 \<and> var < int (length (assignment s)) then
           (case vec_set (assignment s) var (if val then 1 else 0) of
              None \<Rightarrow> None
            | Some v \<Rightarrow> Some (s\<lparr>assignment := v\<rparr>))
         else Some s)"

text \<open>The inner loop of \<open>SolutionParser::parse\<close>,
  \<open>while (iss >> lit) { if (lit == 0) break; solution.setLiteral(lit); }\<close>, on the list of
  the integers that the successive extractions deliver: it stops at the first \<open>0\<close>.\<close>

fun setLiteral_loop :: "int list \<Rightarrow> Solution \<Rightarrow> Solution option" where
  "setLiteral_loop [] s = Some s"
| "setLiteral_loop (lit # rest) s =
     (if lit = 0 then Some s
      else case setLiteral s lit of None \<Rightarrow> None | Some s' \<Rightarrow> setLiteral_loop rest s')"

text \<open>A line that starts with \<open>v\<close>: \<open>line.substr(2)\<close> throws \<open>std::out_of_range\<close> when
  \<open>2\<close> is greater than the size of the line, that is on the bare line \<open>v\<close>. What
  \<open>operator>>\<close> reads from the rest of the line is a parameter of the model: \<open>extract\<close>
  gives the integers of the extractions that succeed, in order, up to the first one that
  fails.\<close>

definition parse_v_line :: "(string \<Rightarrow> int list) \<Rightarrow> string \<Rightarrow> Solution
    \<Rightarrow> parse_failure + Solution" where
  "parse_v_line extract line s =
     (if 2 > length line then Inl SubstrOutOfRange
      else case setLiteral_loop (extract (drop 2 line)) s of
             None \<Rightarrow> Inl VectorOutOfBounds
           | Some s' \<Rightarrow> Inr s')"

text \<open>The loop over the lines that \<open>getline\<close> delivers: empty lines and lines that start
  with \<open>c\<close> are skipped, lines that start with \<open>v\<close> are read, every other line is
  ignored.\<close>

fun parse_lines :: "(string \<Rightarrow> int list) \<Rightarrow> string list \<Rightarrow> Solution
    \<Rightarrow> parse_failure + Solution" where
  "parse_lines extract [] solution = Inr solution"
| "parse_lines extract (line # rest) solution =
     (if line = [] then parse_lines extract rest solution
      else if hd line = CHR ''c'' then parse_lines extract rest solution
      else if hd line = CHR ''v'' then
        (case parse_v_line extract line solution of
           Inl e \<Rightarrow> Inl e
         | Inr solution' \<Rightarrow> parse_lines extract rest solution')
      else parse_lines extract rest solution)"

text \<open>\<open>SolutionParser::parse\<close>; the file is \<open>None\<close> when it cannot be opened, and the list of
  its lines otherwise.\<close>

definition SolutionParser_parse :: "(string \<Rightarrow> int list) \<Rightarrow> string list option \<Rightarrow> int
    \<Rightarrow> parse_failure + Solution" where
  "SolutionParser_parse extract file nVars =
     (case file of
        None \<Rightarrow> Inl CannotOpen
      | Some lines \<Rightarrow>
          (case Solution_new nVars of
             Inl e \<Rightarrow> Inl e
           | Inr solution \<Rightarrow> parse_lines extract lines solution))"

text \<open>The values of the object \<open>solution\<close> in the course of \<open>SolutionParser::parse\<close>: what
  the constructor returns for the declared count (the \<open>numVars\<close> of the source, here
  \<open>nVars\<close>), and what a call of \<open>setLiteral\<close> makes of such a value.\<close>

inductive parsing_state :: "int \<Rightarrow> Solution \<Rightarrow> bool" where
  constructed: "Solution_new nVars = Inr s \<Longrightarrow> parsing_state nVars s"
| literal_set: "parsing_state nVars s \<Longrightarrow> setLiteral s lit = Some s' \<Longrightarrow> parsing_state nVars s'"

text \<open>\<open>SATVerifier::verify\<close> returns the verdict and a message; the model returns the
  verdict and the data the message is built from: the two counters and the list
  \<open>unsatisfiedIndices\<close>.\<close>

record VerifyReport =
  isSat :: bool
  satisfiedClauses :: nat
  unsatisfiedClauses :: nat
  unsatisfiedIndices :: "nat list"

fun verify_loop :: "VClause list \<Rightarrow> 8 word list \<Rightarrow> nat \<Rightarrow> nat \<Rightarrow> nat \<Rightarrow> nat list
    \<Rightarrow> (nat \<times> nat \<times> nat list) option" where
  "verify_loop [] a i nsat nunsat idxs = Some (nsat, nunsat, idxs)"
| "verify_loop (clause # rest) a i nsat nunsat idxs =
     (case isSatisfied clause a of
        None \<Rightarrow> None
      | Some True \<Rightarrow> verify_loop rest a (i + 1) (nsat + 1) nunsat idxs
      | Some False \<Rightarrow>
          (if length (idxs @ [i]) > 10 then Some (nsat, nunsat + 1, idxs @ [i])
           else verify_loop rest a (i + 1) nsat (nunsat + 1) (idxs @ [i])))"

definition verify :: "CNFInstance \<Rightarrow> Solution \<Rightarrow> VerifyReport option" where
  "verify instance solution =
     (if inst_clauses instance = [] then
        Some \<lparr> isSat = True, satisfiedClauses = 0, unsatisfiedClauses = 0, unsatisfiedIndices = [] \<rparr>
      else
        case verify_loop (inst_clauses instance) (assignment solution) 0 0 0 [] of
          None \<Rightarrow> None
        | Some (nsat, nunsat, idxs) \<Rightarrow>
            Some \<lparr> isSat = (nunsat = 0), satisfiedClauses = nsat,
                   unsatisfiedClauses = nunsat, unsatisfiedIndices = idxs \<rparr>)"

text \<open>The indices, from \<open>i\<close> on, of the clauses that have no true literal.\<close>

fun falsified :: "VClause list \<Rightarrow> 8 word list \<Rightarrow> nat \<Rightarrow> nat list" where
  "falsified [] a i = []"
| "falsified (c # cs) a i =
     (if isSatisfied c a = Some True then falsified cs a (i + 1) else i # falsified cs a (i + 1))"

section \<open>The search engines (SATSolverOverOptmised.cpp and SATSOLverOPtimsed2.cpp)\<close>

text \<open>
  The two solver files share \<open>Lit\<close>, \<open>Clause\<close>, \<open>TimeoutManager\<close>, the parser and most of
  \<open>Assignment\<close>. Where they differ the definitions carry the suffix \<open>1\<close> for
  SATSolverOverOptmised.cpp (the watched-literal engine) and \<open>2\<close> for
  SATSOLverOPtimsed2.cpp (the re-scanning engine).
\<close>

record Lit =
  var :: int
  sign :: bool

definition toInt :: "Lit \<Rightarrow> int" where
  "toInt l = (if sign l then var l else - var l)"

record SClause =
  literals :: "Lit list"
  clause_id :: int

text \<open>The literals of a clause line as \<open>CNFParser::parse\<close> builds them:
  \<open>Lit(abs(lit), lit > 0)\<close>.\<close>

definition mkLit :: "int \<Rightarrow> Lit" where
  "mkLit lit = \<lparr> var = \<bar>lit\<bar>, sign = (lit > 0) \<rparr>"

definition mkClause :: "int \<Rightarrow> int list \<Rightarrow> SClause" where
  "mkClause i lits = \<lparr> literals = map mkLit lits, clause_id = i \<rparr>"

text \<open>\<open>Assignment\<close>: the field \<open>values\<close> is named \<open>vals\<close> here. The trail is a vector
  that grows and shrinks at its back, so the last element of the list is the most recent
  variable. The constructor resizes \<open>values\<close> to \<open>maxVars + 1\<close> entries; a variable count
  below \<open>-1\<close>, for which \<open>resize\<close> throws, is outside the model.\<close>

record Assignment =
  vals :: "8 word list"
  trail :: "int list"

definition Assignment_new :: "int \<Rightarrow> Assignment" where
  "Assignment_new maxVars = \<lparr> vals = replicate (nat (maxVars + 1)) (- 1), trail = [] \<rparr>"

definition contains :: "Assignment \<Rightarrow> int \<Rightarrow> bool" where
  "contains a v = (v > 0 \<and> v < int (length (vals a)) \<and> vals a ! nat v \<noteq> - 1)"

text \<open>\<open>getValue\<close> reads the vector unguarded; every call in the sources follows a
  successful \<open>contains\<close> or takes its variable from the trail.\<close>

definition getValue :: "Assignment \<Rightarrow> int \<Rightarrow> bool" where
  "getValue a v = (vals a ! nat v = 1)"

definition assign1 :: "Assignment \<Rightarrow> int \<Rightarrow> bool \<Rightarrow> Assignment" where
  "assign1 a v val =
     (if v \<le> 0 \<or> v \<ge> int (length (vals a)) then a
      else a\<lparr> vals := (vals a)[nat v := (if val then 1 else 0)], trail := trail a @ [v] \<rparr>)"

definition assign2 :: "Assignment \<Rightarrow> int \<Rightarrow> bool \<Rightarrow> Assignment" where
  "assign2 a v val =
     (if v \<le> 0 \<or> v \<ge> int (length (vals a)) then a
      else if vals a ! nat v = - 1 then
        a\<lparr> vals := (vals a)[nat v := (if val then 1 else 0)], trail := trail a @ [v] \<rparr>
      else a)"

definition unassign :: "Assignment \<Rightarrow> int \<Rightarrow> Assignment" where
  "unassign a v =
     (if v \<le> 0 \<or> v \<ge> int (length (vals a)) then a
      else a\<lparr> vals := (vals a)[nat v := - 1] \<rparr>)"

text \<open>\<open>backtrackTo(int position)\<close> compares \<open>trail.size() > position\<close> as unsigned
  numbers, so a negative position, converted to \<open>size_t\<close>, stops the loop at once.\<close>

function backtrackTo :: "Assignment \<Rightarrow> int \<Rightarrow> Assignment" where
  "backtrackTo a position =
     (if 0 \<le> position \<and> int (length (trail a)) > position then
        backtrackTo ((unassign a (last (trail a)))\<lparr> trail := butlast (trail a) \<rparr>) position
      else a)"
  by pat_completeness auto
termination
  by (relation "measure (\<lambda>(a, p). length (trail a))") (auto simp: unassign_def)

declare backtrackTo.simps [simp del]

text \<open>\<open>Clause::isSatisfied\<close> and \<open>Assignment::verifySolution\<close> of SATSOLverOPtimsed2.cpp.
  The comparison \<open>lit.var < values.size()\<close> is unsigned, so a negative variable fails it.\<close>

fun clause_isSatisfied :: "Lit list \<Rightarrow> 8 word list \<Rightarrow> bool" where
  "clause_isSatisfied [] values = False"
| "clause_isSatisfied (lit # lits) values =
     (if 0 \<le> var lit \<and> var lit < int (length values) \<and> values ! nat (var lit) \<noteq> - 1
         \<and> ((values ! nat (var lit) = 1) = sign lit)
      then True
      else clause_isSatisfied lits values)"

fun verifySolution :: "Assignment \<Rightarrow> SClause list \<Rightarrow> bool" where
  "verifySolution a [] = True"
| "verifySolution a (clause # rest) =
     (if \<not> clause_isSatisfied (literals clause) (vals a) then False else verifySolution a rest)"

text \<open>The static \<open>isSatisfied\<close> of the naive and MOMS solvers of SATSolverOverOptmised.cpp,
  which is also the final check inlined in its CDCL \<open>solve\<close>.\<close>

fun clause_sat1 :: "Lit list \<Rightarrow> Assignment \<Rightarrow> bool" where
  "clause_sat1 [] a = False"
| "clause_sat1 (lit # lits) a =
     (if contains a (var lit) \<and> getValue a (var lit) = sign lit then True
      else clause_sat1 lits a)"

fun isSatisfied1 :: "SClause list \<Rightarrow> Assignment \<Rightarrow> bool" where
  "isSatisfied1 [] a = True"
| "isSatisfied1 (clause # rest) a =
     (if \<not> clause_sat1 (literals clause) a then False else isSatisfied1 rest a)"

text \<open>
  \<open>TimeoutManager::check\<close> throws once the wall clock has passed the deadline. The clock
  is abstracted to a budget: the number of calls of \<open>check\<close> that still return. A call
  with budget \<open>0\<close> throws, which ends the whole solve with the outcome \<open>Timeout\<close>. The
  real guard reads the clock at every 10000th call only, so a run that makes fewer than
  10000 calls never times out. Every \<open>solve\<close> takes the guard as a pointer and skips the
  call when it is null; \<open>main\<close> always passes one.
\<close>

type_synonym TimeoutManager = nat

definition check :: "TimeoutManager \<Rightarrow> TimeoutManager option" where
  "check tm = (if tm = 0 then None else Some (tm - 1))"

text \<open>What a solve produces: the pair \<open>(sat, assignment)\<close> it returns, the timeout
  exception, or a vector indexed out of its bounds (undefined behaviour in C++).\<close>

datatype outcome = Timeout | OutOfBounds | Result bool Assignment

subsection \<open>The members and helpers the two CDCL engines share\<close>

text \<open>The members of \<open>FastCDCLSolver\<close> (prefixed, since \<open>clauses\<close>, \<open>numVars\<close> and
  \<open>assignment\<close> are fields of other structs already). The activity scores are C++
  \<open>double\<close>s; they are idealised as reals. No claim depends on their values.\<close>

record FastCDCLSolver =
  cdcl_clauses :: "SClause list"
  cdcl_numVars :: int
  cdcl_assignment :: Assignment
  activity :: "real list"
  varInc :: real
  varDecay :: real

definition bumpActivity :: "'a FastCDCLSolver_scheme \<Rightarrow> int \<Rightarrow> 'a FastCDCLSolver_scheme" where
  "bumpActivity s v =
     (if v \<le> 0 \<or> v \<ge> int (length (activity s)) then s
      else
        let s1 = s\<lparr> activity := (activity s)[nat v := activity s ! nat v + varInc s] \<rparr>
        in if activity s1 ! nat v > 10 ^ 100 then
             s1\<lparr> activity := map (\<lambda>a. a * (1 / 10 ^ 100)) (activity s1),
                  varInc := varInc s1 * (1 / 10 ^ 100) \<rparr>
           else s1)"

definition decayActivities :: "'a FastCDCLSolver_scheme \<Rightarrow> 'a FastCDCLSolver_scheme" where
  "decayActivities s = s\<lparr> varInc := varInc s / varDecay s \<rparr>"

fun selectVariable_loop :: "int list \<Rightarrow> 'a FastCDCLSolver_scheme \<Rightarrow> int \<Rightarrow> real \<Rightarrow> int" where
  "selectVariable_loop [] s bestVar bestScore = bestVar"
| "selectVariable_loop (i # rest) s bestVar bestScore =
     (if \<not> contains (cdcl_assignment s) i \<and> activity s ! nat i > bestScore
      then selectVariable_loop rest s i (activity s ! nat i)
      else selectVariable_loop rest s bestVar bestScore)"

definition selectVariable :: "'a FastCDCLSolver_scheme \<Rightarrow> int" where
  "selectVariable s = selectVariable_loop [1 .. cdcl_numVars s] s (- 1) (- 1)"

text \<open>The loop that both \<open>solve\<close>s and the naive \<open>dpll\<close> run to find the least unset
  variable, \<open>-1\<close> when there is none.\<close>

fun first_unset :: "int list \<Rightarrow> Assignment \<Rightarrow> int" where
  "first_unset [] a = - 1"
| "first_unset (i # rest) a = (if \<not> contains a i then i else first_unset rest a)"

text \<open>The decision at the end of the loop body: \<open>selectVariable\<close>, then the fallback loop.\<close>

definition decide_var :: "'a FastCDCLSolver_scheme \<Rightarrow> int" where
  "decide_var s =
     (let v = selectVariable s
      in if v = - 1 then first_unset [1 .. cdcl_numVars s] (cdcl_assignment s) else v)"

text \<open>What a propagation returns: \<open>true\<close> or \<open>false\<close> with the solver it leaves behind
  and the remaining budget, unless the guard fires or a vector is indexed out of bounds.\<close>

datatype 's prop_result = PTimeout | POutOfBounds | PDone bool 's TimeoutManager

text \<open>One pass of the loop body of \<open>solve\<close>: it returns from \<open>solve\<close> or goes round again
  with a new solver state, conflict counter and budget.\<close>

datatype 's step_result = Stop outcome | Continue 's int TimeoutManager

subsection \<open>The watched-literal engine of SATSolverOverOptmised.cpp\<close>

record WatchedSolver = FastCDCLSolver +
  watches :: "nat list list"

definition litToIdx :: "int \<Rightarrow> int" where
  "litToIdx lit = (if lit > 0 then 2 * lit else 2 * (- lit) + 1)"

definition watch_push :: "nat list list \<Rightarrow> int \<Rightarrow> nat \<Rightarrow> nat list list option" where
  "watch_push ws idx i =
     (if 0 \<le> idx \<and> idx < int (length ws) then Some (ws[nat idx := ws ! nat idx @ [i]]) else None)"

fun initWatches_loop :: "SClause list \<Rightarrow> nat \<Rightarrow> nat list list \<Rightarrow> nat list list option" where
  "initWatches_loop [] i ws = Some ws"
| "initWatches_loop (c # rest) i ws =
     (case (if length (literals c) \<ge> 1
            then watch_push ws (litToIdx (toInt (literals c ! 0))) i else Some ws) of
        None \<Rightarrow> None
      | Some ws1 \<Rightarrow>
          (case (if length (literals c) \<ge> 2
                 then watch_push ws1 (litToIdx (toInt (literals c ! 1))) i else Some ws1) of
             None \<Rightarrow> None
           | Some ws2 \<Rightarrow> initWatches_loop rest (i + 1) ws2))"

definition initWatches :: "SClause list \<Rightarrow> int \<Rightarrow> nat list list option" where
  "initWatches cls nv = initWatches_loop cls 0 (replicate (nat (2 * nv + 2)) [])"

text \<open>The constructor: \<open>None\<close> when \<open>initWatches\<close> indexes \<open>watches\<close> out of bounds.\<close>

definition WatchedSolver_new :: "SClause list \<Rightarrow> int \<Rightarrow> WatchedSolver option" where
  "WatchedSolver_new cls nv =
     (case initWatches cls nv of
        None \<Rightarrow> None
      | Some ws \<Rightarrow>
          Some \<lparr> cdcl_clauses = cls, cdcl_numVars = nv, cdcl_assignment = Assignment_new nv,
                 activity = replicate (nat (nv + 1)) 0, varInc = 1, varDecay = 95 / 100,
                 watches = ws \<rparr>)"

text \<open>The scan of one clause inside \<open>propagate\<close>: whether a literal is true, the last
  unassigned literal seen and the number of unassigned literals before the scan stopped.\<close>

fun scan1 :: "Lit list \<Rightarrow> Assignment \<Rightarrow> Lit \<Rightarrow> int \<Rightarrow> bool \<times> Lit \<times> int" where
  "scan1 [] a unassignedLit unassignedCount = (False, unassignedLit, unassignedCount)"
| "scan1 (lit # lits) a unassignedLit unassignedCount =
     (if contains a (var lit) then
        (if getValue a (var lit) = sign lit then (True, unassignedLit, unassignedCount)
         else scan1 lits a unassignedLit unassignedCount)
      else scan1 lits a lit (unassignedCount + 1))"

text \<open>The \<open>for\<close> loop over one watch list: \<open>Inl\<close> is the conflict (\<open>return false\<close>),
  \<open>Inr\<close> the solver and the queue when the list is done.\<close>

fun watchlist_loop1 :: "nat list \<Rightarrow> WatchedSolver \<Rightarrow> int list \<Rightarrow> WatchedSolver + WatchedSolver \<times> int list" where
  "watchlist_loop1 [] s propQueue = Inr (s, propQueue)"
| "watchlist_loop1 (clauseIdx # rest) s propQueue =
     (let clause = cdcl_clauses s ! clauseIdx;
          (satisfied, unassignedLit, unassignedCount) =
             scan1 (literals clause) (cdcl_assignment s) \<lparr>var = 0, sign = True\<rparr> 0
      in if satisfied then watchlist_loop1 rest s propQueue
         else if unassignedCount = 0 then Inl s
         else if unassignedCount = 1 then
           (let s1 = s\<lparr> cdcl_assignment :=
                          assign1 (cdcl_assignment s) (var unassignedLit) (sign unassignedLit) \<rparr>;
                s2 = bumpActivity s1 (var unassignedLit);
                newFalseLit = (if sign unassignedLit then - var unassignedLit else var unassignedLit)
            in watchlist_loop1 rest s2 (propQueue @ [newFalseLit]))
         else watchlist_loop1 rest s propQueue)"

function propagate_loop1 :: "int list \<Rightarrow> WatchedSolver \<Rightarrow> TimeoutManager \<Rightarrow> WatchedSolver prop_result" where
  "propagate_loop1 propQueue s tm =
     (case propQueue of
        [] \<Rightarrow> PDone True s tm
      | falseLit # rest \<Rightarrow>
          (case check tm of
             None \<Rightarrow> PTimeout
           | Some tm1 \<Rightarrow>
               (let watchIdx = litToIdx falseLit
                in if \<not> (0 \<le> watchIdx \<and> watchIdx < int (length (watches s))) then POutOfBounds
                   else
                     (case watchlist_loop1 (watches s ! nat watchIdx) s rest of
                        Inl s1 \<Rightarrow> PDone False s1 tm1
                      | Inr (s1, queue1) \<Rightarrow> propagate_loop1 queue1 s1 tm1))))"
  by pat_completeness auto
termination
  by (relation "measure (\<lambda>(q, s, tm). tm)") (auto simp: check_def split: if_splits)

declare propagate_loop1.simps [simp del]

definition propagate1 :: "WatchedSolver \<Rightarrow> TimeoutManager \<Rightarrow> WatchedSolver prop_result" where
  "propagate1 s tm =
     (let propQueue =
            (if trail (cdcl_assignment s) \<noteq> [] then
               (let v = last (trail (cdcl_assignment s));
                    val = getValue (cdcl_assignment s) v;
                    falseLit = (if val then - v else v)
                in [falseLit])
             else [])
      in propagate_loop1 propQueue s tm)"

text \<open>The loop body of \<open>solve\<close>, after \<open>decisions++\<close> (the argument \<open>decisions\<close> is the
  counter already incremented). The counters \<open>conflicts\<close> and \<open>decisions\<close> start at 0 and
  are only incremented or reset to 0, so C++'s truncating \<open>/\<close> and \<open>%\<close> on them are \<open>div\<close>
  and \<open>mod\<close>. The static counter \<open>nodesExplored\<close>, which only feeds the console output, is
  left out.\<close>

definition on_conflict1 :: "WatchedSolver \<Rightarrow> int \<Rightarrow> TimeoutManager \<Rightarrow> WatchedSolver step_result" where
  "on_conflict1 s conflicts0 tm =
     (let conflicts = conflicts0 + 1
      in if length (trail (cdcl_assignment s)) \<le> 1 then Stop (Result False (cdcl_assignment s))
         else
           let backtrackPos = int (length (trail (cdcl_assignment s))) div 2;
               s1 = s\<lparr> cdcl_assignment := backtrackTo (cdcl_assignment s) backtrackPos \<rparr>;
               s2 = (if conflicts mod 50 = 0 then decayActivities s1 else s1)
           in if conflicts > 100
              then Continue (s2\<lparr> cdcl_assignment := backtrackTo (cdcl_assignment s2) 0 \<rparr>) 0 tm
              else Continue s2 conflicts tm)"

definition solve_step1 :: "WatchedSolver \<Rightarrow> int \<Rightarrow> int \<Rightarrow> TimeoutManager \<Rightarrow> WatchedSolver step_result" where
  "solve_step1 s0 conflicts decisions tm0 =
     (case check tm0 of
        None \<Rightarrow> Stop Timeout
      | Some tm1 \<Rightarrow>
          (case propagate1 s0 tm1 of
             PTimeout \<Rightarrow> Stop Timeout
           | POutOfBounds \<Rightarrow> Stop OutOfBounds
           | PDone ok s tm \<Rightarrow>
               if \<not> ok then on_conflict1 s conflicts tm
               else if int (length (trail (cdcl_assignment s))) = cdcl_numVars s
                       \<and> isSatisfied1 (cdcl_clauses s) (cdcl_assignment s)
               then Stop (Result True (cdcl_assignment s))
               else
                 (let v = decide_var s
                  in if v = - 1
                     then Stop (Result (int (length (trail (cdcl_assignment s))) = cdcl_numVars s)
                                  (cdcl_assignment s))
                     else
                       let polarity = (if decisions mod 3 = 0 then False else True)
                       in Continue (s\<lparr> cdcl_assignment := assign1 (cdcl_assignment s) v polarity \<rparr>)
                            conflicts tm)))"

function solve_loop1 :: "WatchedSolver \<Rightarrow> int \<Rightarrow> int \<Rightarrow> TimeoutManager \<Rightarrow> outcome" where
  "solve_loop1 s conflicts decisions tm =
     (if decisions < 1000000 then
        (case solve_step1 s conflicts (decisions + 1) tm of
           Stop r \<Rightarrow> r
         | Continue s1 conflicts1 tm1 \<Rightarrow> solve_loop1 s1 conflicts1 (decisions + 1) tm1)
      else Result False (cdcl_assignment s))"
  by pat_completeness auto
termination
  by (relation "measure (\<lambda>(s, c, d, tm). nat (1000000 - d))") auto

declare solve_loop1.simps [simp del]

definition FastCDCLSolver_solve1 :: "SClause list \<Rightarrow> int \<Rightarrow> TimeoutManager \<Rightarrow> outcome" where
  "FastCDCLSolver_solve1 cls nv tm =
     (case WatchedSolver_new cls nv of
        None \<Rightarrow> OutOfBounds
      | Some s \<Rightarrow> solve_loop1 s 0 0 tm)"

subsection \<open>The re-scanning engine of SATSOLverOPtimsed2.cpp\<close>

text \<open>Its \<open>FastCDCLSolver\<close> has exactly the shared members. The scan of one clause
  inside \<open>unitPropagation\<close> returns the last unassigned literal seen, the number of
  unassigned literals and the flag \<open>hasConflict\<close>.\<close>

fun scan2 :: "Lit list \<Rightarrow> Assignment \<Rightarrow> Lit \<Rightarrow> int \<Rightarrow> bool \<Rightarrow> Lit \<times> int \<times> bool" where
  "scan2 [] a unassignedLit unassignedCount hasConflict =
     (unassignedLit, unassignedCount, hasConflict)"
| "scan2 (lit # lits) a unassignedLit unassignedCount hasConflict =
     (if \<not> contains a (var lit) then scan2 lits a lit (unassignedCount + 1) False
      else if getValue a (var lit) = sign lit then (unassignedLit, unassignedCount, False)
      else scan2 lits a unassignedLit unassignedCount hasConflict)"

text \<open>The \<open>for\<close> loop over all clauses: \<open>Inl\<close> is the conflict (\<open>return false\<close>),
  \<open>Inr\<close> the solver and the flag \<open>changed\<close> at the end of the pass.\<close>

fun clauses_loop2 :: "SClause list \<Rightarrow> FastCDCLSolver \<Rightarrow> bool \<Rightarrow> FastCDCLSolver + FastCDCLSolver \<times> bool" where
  "clauses_loop2 [] s changed = Inr (s, changed)"
| "clauses_loop2 (clause # rest) s changed =
     (if clause_isSatisfied (literals clause) (vals (cdcl_assignment s))
      then clauses_loop2 rest s changed
      else
        let (unassignedLit, unassignedCount, hasConflict) =
              scan2 (literals clause) (cdcl_assignment s) \<lparr>var = 0, sign = True\<rparr> 0 True
        in if hasConflict \<and> unassignedCount = 0 then Inl s
           else if unassignedCount = 1 then
             (let s1 = s\<lparr> cdcl_assignment :=
                            assign2 (cdcl_assignment s) (var unassignedLit) (sign unassignedLit) \<rparr>;
                  s2 = bumpActivity s1 (var unassignedLit)
              in clauses_loop2 rest s2 True)
           else clauses_loop2 rest s changed)"

function unitPropagation :: "FastCDCLSolver \<Rightarrow> TimeoutManager \<Rightarrow> FastCDCLSolver prop_result" where
  "unitPropagation s tm =
     (case check tm of
        None \<Rightarrow> PTimeout
      | Some tm1 \<Rightarrow>
          (case clauses_loop2 (cdcl_clauses s) s False of
             Inl s1 \<Rightarrow> PDone False s1 tm1
           | Inr (s1, changed) \<Rightarrow>
               if changed then unitPropagation s1 tm1 else PDone True s1 tm1))"
  by pat_completeness auto
termination
  by (relation "measure (\<lambda>(s, tm). tm)") (auto simp: check_def split: if_splits)

declare unitPropagation.simps [simp del]

definition FastCDCLSolver_new2 :: "SClause list \<Rightarrow> int \<Rightarrow> FastCDCLSolver" where
  "FastCDCLSolver_new2 cls nv =
     \<lparr> cdcl_clauses = cls, cdcl_numVars = nv, cdcl_assignment = Assignment_new nv,
       activity = replicate (nat (nv + 1)) 0, varInc = 1, varDecay = 95 / 100 \<rparr>"

definition on_conflict2 :: "FastCDCLSolver \<Rightarrow> int \<Rightarrow> TimeoutManager \<Rightarrow> FastCDCLSolver step_result" where
  "on_conflict2 s conflicts0 tm =
     (let conflicts = conflicts0 + 1
      in if length (trail (cdcl_assignment s)) \<le> 1 then Stop (Result False (cdcl_assignment s))
         else
           let backtrackPos = max 0 (int (length (trail (cdcl_assignment s))) - 5);
               s1 = s\<lparr> cdcl_assignment := backtrackTo (cdcl_assignment s) backtrackPos \<rparr>;
               s2 = (if conflicts mod 100 = 0 then decayActivities s1 else s1)
           in if conflicts > 200 * (1 + conflicts div 1000)
              then Continue (s2\<lparr> cdcl_assignment := backtrackTo (cdcl_assignment s2) 0 \<rparr>) 0 tm
              else Continue s2 conflicts tm)"

definition solve_step2 :: "FastCDCLSolver \<Rightarrow> int \<Rightarrow> int \<Rightarrow> TimeoutManager \<Rightarrow> FastCDCLSolver step_result" where
  "solve_step2 s0 conflicts decisions tm0 =
     (case check tm0 of
        None \<Rightarrow> Stop Timeout
      | Some tm1 \<Rightarrow>
          (case unitPropagation s0 tm1 of
             PTimeout \<Rightarrow> Stop Timeout
           | POutOfBounds \<Rightarrow> Stop OutOfBounds
           | PDone ok s tm \<Rightarrow>
               if \<not> ok then on_conflict2 s conflicts tm
               else if int (length (trail (cdcl_assignment s))) = cdcl_numVars s then
                 (if verifySolution (cdcl_assignment s) (cdcl_clauses s)
                  then Stop (Result True (cdcl_assignment s))
                  else if length (trail (cdcl_assignment s)) > 0 then
                    (let backtrackPos = int (length (trail (cdcl_assignment s))) div 2
                     in Continue (s\<lparr> cdcl_assignment := backtrackTo (cdcl_assignment s) backtrackPos \<rparr>)
                          conflicts tm)
                  else Stop (Result False (cdcl_assignment s)))
               else
                 (let v = decide_var s
                  in if v = - 1 then
                       (if verifySolution (cdcl_assignment s) (cdcl_clauses s)
                        then Stop (Result True (cdcl_assignment s))
                        else Stop (Result False (cdcl_assignment s)))
                     else
                       let polarity = (decisions mod 2 = 0)
                       in Continue (s\<lparr> cdcl_assignment := assign2 (cdcl_assignment s) v polarity \<rparr>)
                            conflicts tm)))"

function solve_loop2 :: "FastCDCLSolver \<Rightarrow> int \<Rightarrow> int \<Rightarrow> TimeoutManager \<Rightarrow> outcome" where
  "solve_loop2 s conflicts decisions tm =
     (if decisions < 5000000 then
        (case solve_step2 s conflicts (decisions + 1) tm of
           Stop r \<Rightarrow> r
         | Continue s1 conflicts1 tm1 \<Rightarrow> solve_loop2 s1 conflicts1 (decisions + 1) tm1)
      else Result False (cdcl_assignment s))"
  by pat_completeness auto
termination
  by (relation "measure (\<lambda>(s, c, d, tm). nat (5000000 - d))") auto

declare solve_loop2.simps [simp del]

definition FastCDCLSolver_solve2 :: "SClause list \<Rightarrow> int \<Rightarrow> TimeoutManager \<Rightarrow> outcome" where
  "FastCDCLSolver_solve2 cls nv tm = solve_loop2 (FastCDCLSolver_new2 cls nv) 0 0 tm"

subsection \<open>The two DPLL procedures\<close>

text \<open>
  \<open>NaiveSolver::dpll\<close> and \<open>MOMSSolver::dpll\<close> mutate the assignment they are given and
  return a flag; the model returns the flag, the assignment and the remaining budget, or
  \<open>None\<close> when the guard throws. The two files differ in the satisfaction check and in
  \<open>assign\<close>, and the two solvers in the choice of the variable, so the procedure is written
  once over these three.
\<close>

function dpll :: "(Assignment \<Rightarrow> bool) \<Rightarrow> (Assignment \<Rightarrow> int) \<Rightarrow> (Assignment \<Rightarrow> int \<Rightarrow> bool \<Rightarrow> Assignment)
    \<Rightarrow> Assignment \<Rightarrow> TimeoutManager \<Rightarrow> (bool \<times> Assignment \<times> TimeoutManager) option" where
  "dpll satisfied select assign a tm =
     (case check tm of
        None \<Rightarrow> None
      | Some tm1 \<Rightarrow>
          if satisfied a then Some (True, a, tm1)
          else
            let v = select a
            in if v = - 1 then Some (False, a, tm1)
               else
                 (case dpll satisfied select assign (assign a v True) tm1 of
                    None \<Rightarrow> None
                  | Some (r1, a1, tm2) \<Rightarrow>
                      if r1 then Some (True, a1, tm2)
                      else
                        (case dpll satisfied select assign (assign (unassign a1 v) v False) tm2 of
                           None \<Rightarrow> None
                         | Some (r2, a2, tm3) \<Rightarrow>
                             if r2 then Some (True, a2, tm3)
                             else Some (False, unassign a2 v, tm3))))"
  by pat_completeness auto

lemma dpll_budget:
  "dpll_dom (satisfied, select, assign, a, tm) \<Longrightarrow>
   dpll satisfied select assign a tm = Some (r, a', tm') \<Longrightarrow> tm' < tm"
proof (induction satisfied select assign a tm arbitrary: r a' tm' rule: dpll.pinduct)
  case (1 satisfied select assign a tm)
  from "1.prems" "1.hyps" obtain tm1 where c: "check tm = Some tm1"
    by (cases "check tm") (simp_all add: dpll.psimps)
  then have lt: "tm1 < tm" by (auto simp: check_def split: if_splits)
  show ?case
  proof (cases "satisfied a \<or> select a = - 1")
    case True
    with "1.prems" "1.hyps" c lt show ?thesis
      by (auto simp: dpll.psimps Let_def split: if_splits)
  next
    case False
    then have ns: "\<not> satisfied a" and nv: "select a \<noteq> - 1" by auto
    let ?v = "select a"
    from "1.prems" "1.hyps" c ns nv obtain r1 a1 tm2 where
      d1: "dpll satisfied select assign (assign a ?v True) tm1 = Some (r1, a1, tm2)"
      by (cases "dpll satisfied select assign (assign a ?v True) tm1")
         (auto simp: dpll.psimps Let_def)
    from "1.IH"(1)[OF c ns refl nv d1] have l1: "tm2 < tm1" .
    show ?thesis
    proof (cases r1)
      case True
      with "1.prems" "1.hyps" c ns nv d1 l1 lt show ?thesis
        by (auto simp: dpll.psimps Let_def)
    next
      case False
      with "1.prems" "1.hyps" c ns nv d1 obtain r2 a2 tm3 where
        d2: "dpll satisfied select assign (assign (unassign a1 ?v) ?v False) tm2 = Some (r2, a2, tm3)"
        by (cases "dpll satisfied select assign (assign (unassign a1 ?v) ?v False) tm2")
           (auto simp: dpll.psimps Let_def)
      from "1.IH"(2)[OF c ns refl nv d1 refl refl False d2] have l2: "tm3 < tm2" .
      from "1.prems" "1.hyps" c ns nv d1 False d2 l1 l2 lt show ?thesis
        by (auto simp: dpll.psimps Let_def split: if_splits)
    qed
  qed
qed

termination dpll
proof (relation "measure (\<lambda>(satisfied, select, assign, a, tm). tm)", goal_cases)
  case 1
  show ?case by simp
next
  case (2 satisfied select assign a tm tm1 v)
  then show ?case by (auto simp: check_def split: if_splits)
next
  case (3 satisfied select assign a tm tm1 v p r1 q a1 tm2)
  then have "tm2 < tm1" using dpll_budget by blast
  moreover have "tm1 < tm" using 3 by (auto simp: check_def split: if_splits)
  ultimately show ?case by simp
qed

declare dpll.simps [simp del]

text \<open>\<open>selectVariableMOMS\<close>: the counts are kept in a \<open>std::unordered_map\<close>, whose iteration
  order the language leaves open. The model counts in an association list in order of
  first insertion and takes the iteration order of the table as a parameter \<open>order\<close>. The
  check whether a clause is satisfied is the one of the file.\<close>

fun litCount_incr :: "(int \<times> int) list \<Rightarrow> int \<Rightarrow> (int \<times> int) list" where
  "litCount_incr [] k = [(k, 1)]"
| "litCount_incr ((k', c) # rest) k =
     (if k' = k then (k', c + 1) # rest else (k', c) # litCount_incr rest k)"

fun count_clause_lits :: "Lit list \<Rightarrow> Assignment \<Rightarrow> (int \<times> int) list \<Rightarrow> (int \<times> int) list" where
  "count_clause_lits [] a litCount = litCount"
| "count_clause_lits (lit # lits) a litCount =
     (if \<not> contains a (var lit) then count_clause_lits lits a (litCount_incr litCount (toInt lit))
      else count_clause_lits lits a litCount)"

fun count_lits :: "(Lit list \<Rightarrow> Assignment \<Rightarrow> bool) \<Rightarrow> SClause list \<Rightarrow> Assignment
    \<Rightarrow> (int \<times> int) list \<Rightarrow> (int \<times> int) list" where
  "count_lits satisfied [] a litCount = litCount"
| "count_lits satisfied (clause # rest) a litCount =
     (if satisfied (literals clause) a then count_lits satisfied rest a litCount
      else count_lits satisfied rest a (count_clause_lits (literals clause) a litCount))"

fun best_lit :: "(int \<times> int) list \<Rightarrow> int \<Rightarrow> int \<Rightarrow> int" where
  "best_lit [] bestLit maxCount = bestLit"
| "best_lit ((lit, count) # rest) bestLit maxCount =
     (if count > maxCount then best_lit rest lit count else best_lit rest bestLit maxCount)"

definition selectVariableMOMS :: "((int \<times> int) list \<Rightarrow> (int \<times> int) list)
    \<Rightarrow> (Lit list \<Rightarrow> Assignment \<Rightarrow> bool) \<Rightarrow> SClause list \<Rightarrow> Assignment \<Rightarrow> int" where
  "selectVariableMOMS order satisfied cls a =
     (case order (count_lits satisfied cls a []) of
        [] \<Rightarrow> - 1
      | (lit0, count0) # rest \<Rightarrow> \<bar>best_lit ((lit0, count0) # rest) lit0 count0\<bar>)"

text \<open>The four \<open>solve\<close> functions of the DPLL solvers.\<close>

definition dpll_outcome :: "(bool \<times> Assignment \<times> TimeoutManager) option \<Rightarrow> outcome" where
  "dpll_outcome r = (case r of None \<Rightarrow> Timeout | Some (b, a, tm) \<Rightarrow> Result b a)"

definition NaiveSolver_solve1 :: "SClause list \<Rightarrow> int \<Rightarrow> TimeoutManager \<Rightarrow> outcome" where
  "NaiveSolver_solve1 cls nv tm =
     dpll_outcome (dpll (isSatisfied1 cls) (first_unset [1 .. nv]) assign1 (Assignment_new nv) tm)"

definition NaiveSolver_solve2 :: "SClause list \<Rightarrow> int \<Rightarrow> TimeoutManager \<Rightarrow> outcome" where
  "NaiveSolver_solve2 cls nv tm =
     dpll_outcome (dpll (\<lambda>a. verifySolution a cls) (first_unset [1 .. nv]) assign2
                     (Assignment_new nv) tm)"

definition MOMSSolver_solve1 :: "((int \<times> int) list \<Rightarrow> (int \<times> int) list)
    \<Rightarrow> SClause list \<Rightarrow> int \<Rightarrow> TimeoutManager \<Rightarrow> outcome" where
  "MOMSSolver_solve1 order cls nv tm =
     dpll_outcome (dpll (isSatisfied1 cls) (selectVariableMOMS order clause_sat1 cls) assign1
                     (Assignment_new nv) tm)"

definition MOMSSolver_solve2 :: "((int \<times> int) list \<Rightarrow> (int \<times> int) list)
    \<Rightarrow> SClause list \<Rightarrow> int \<Rightarrow> TimeoutManager \<Rightarrow> outcome" where
  "MOMSSolver_solve2 order cls nv tm =
     dpll_outcome (dpll (\<lambda>a. verifySolution a cls)
                     (selectVariableMOMS order (\<lambda>lits a. clause_isSatisfied lits (vals a)) cls)
                     assign2 (Assignment_new nv) tm)"

subsection \<open>Observing the main loop of the two engines\<close>

text \<open>The state at the head of the \<open>while\<close> loop of \<open>solve\<close> after \<open>n\<close> further passes:
  solver, conflict counter, decision counter and budget; \<open>None\<close> when \<open>solve\<close> has returned
  before.\<close>

fun passes1 :: "nat \<Rightarrow> WatchedSolver \<Rightarrow> int \<Rightarrow> int \<Rightarrow> TimeoutManager
    \<Rightarrow> (WatchedSolver \<times> int \<times> int \<times> TimeoutManager) option" where
  "passes1 0 s c d tm = Some (s, c, d, tm)"
| "passes1 (Suc n) s c d tm =
     (if d < 1000000 then
        (case solve_step1 s c (d + 1) tm of
           Stop r \<Rightarrow> None
         | Continue s1 c1 tm1 \<Rightarrow> passes1 n s1 c1 (d + 1) tm1)
      else None)"

fun passes2 :: "nat \<Rightarrow> FastCDCLSolver \<Rightarrow> int \<Rightarrow> int \<Rightarrow> TimeoutManager
    \<Rightarrow> (FastCDCLSolver \<times> int \<times> int \<times> TimeoutManager) option" where
  "passes2 0 s c d tm = Some (s, c, d, tm)"
| "passes2 (Suc n) s c d tm =
     (if d < 5000000 then
        (case solve_step2 s c (d + 1) tm of
           Stop r \<Rightarrow> None
         | Continue s1 c1 tm1 \<Rightarrow> passes2 n s1 c1 (d + 1) tm1)
      else None)"

text \<open>A pass that starts in this state meets a conflict with a trail of length at
  most 1 (the place where \<open>solve\<close> returns with the comment \<open>UNSAT\<close>).\<close>

definition unsat_at_conflict1 :: "WatchedSolver \<Rightarrow> TimeoutManager \<Rightarrow> bool" where
  "unsat_at_conflict1 s tm =
     (case check tm of
        None \<Rightarrow> False
      | Some tm1 \<Rightarrow>
          (case propagate1 s tm1 of
             PDone ok s1 tm2 \<Rightarrow> \<not> ok \<and> length (trail (cdcl_assignment s1)) \<le> 1
           | PTimeout \<Rightarrow> False
           | POutOfBounds \<Rightarrow> False))"

definition unsat_at_conflict2 :: "FastCDCLSolver \<Rightarrow> TimeoutManager \<Rightarrow> bool" where
  "unsat_at_conflict2 s tm =
     (case check tm of
        None \<Rightarrow> False
      | Some tm1 \<Rightarrow>
          (case unitPropagation s tm1 of
             PDone ok s1 tm2 \<Rightarrow> \<not> ok \<and> length (trail (cdcl_assignment s1)) \<le> 1
           | PTimeout \<Rightarrow> False
           | POutOfBounds \<Rightarrow> False))"

text \<open>The operations of SATSOLverOPtimsed2.cpp that keep the trail and the value vector
  in step: the guarded \<open>assign\<close> and \<open>backtrackTo\<close>, from the empty assignment.\<close>

inductive reachable2 :: "int \<Rightarrow> Assignment \<Rightarrow> bool" for n :: int where
  r_new: "reachable2 n (Assignment_new n)"
| r_assign: "reachable2 n a \<Longrightarrow> reachable2 n (assign2 a v b)"
| r_backtrack: "reachable2 n a \<Longrightarrow> reachable2 n (backtrackTo a k)"

text \<open>The trail invariants (I1) and (I2) of the specification.\<close>

definition trail_inv :: "Assignment \<Rightarrow> bool" where
  "trail_inv a = (distinct (trail a) \<and> (\<forall>v. (v \<in> set (trail a)) = contains a v))"

text \<open>The invariant of the solver state along a run: the trail invariants, and the
  value vector has its \<open>n + 1\<close> entries.\<close>

definition cdcl_inv :: "int \<Rightarrow> 'a FastCDCLSolver_scheme \<Rightarrow> bool" where
  "cdcl_inv n s = (trail_inv (cdcl_assignment s)
                   \<and> int (length (vals (cdcl_assignment s))) = n + 1 \<and> cdcl_numVars s = n)"

text \<open>The four clauses over two variables, with the watch lists \<open>initWatches\<close> builds,
  and the five assignments the loop of \<open>solve\<close> can start a pass with: the empty one
  and the four with a single decided variable.\<close>

definition four_clauses :: "SClause list" where
  "four_clauses = [mkClause 0 [1, 2], mkClause 1 [1, - 2], mkClause 2 [- 1, 2], mkClause 3 [- 1, - 2]]"

definition four_inv :: "WatchedSolver \<Rightarrow> bool" where
  "four_inv s =
     (cdcl_clauses s = four_clauses \<and> cdcl_numVars s = 2
      \<and> watches s = [[], [], [0, 1], [2, 3], [0, 2], [1, 3]]
      \<and> (cdcl_assignment s = \<lparr>vals = [- 1, - 1, - 1], trail = []\<rparr>
         \<or> cdcl_assignment s = \<lparr>vals = [- 1, 1, - 1], trail = [1]\<rparr>
         \<or> cdcl_assignment s = \<lparr>vals = [- 1, 0, - 1], trail = [1]\<rparr>
         \<or> cdcl_assignment s = \<lparr>vals = [- 1, - 1, 1], trail = [2]\<rparr>
         \<or> cdcl_assignment s = \<lparr>vals = [- 1, - 1, 0], trail = [2]\<rparr>))"

section \<open>Properties of the reducer\<close>

lemma spec_chain_nth:
  "2 \<le> length xs \<Longrightarrow>
   spec_chain y xs =
     map (\<lambda>i. [- (y + int i), xs ! i, y + int i + 1]) [0 ..< length xs - 2]
     @ [[- (y + int (length xs - 2)), xs ! (length xs - 2), xs ! (length xs - 1)]]"
proof (induction y xs rule: spec_chain.induct)
  case (1 y x a b xs)
  let ?xs = "a # b # xs"
  have len: "length (x # ?xs) - 2 = Suc (length ?xs - 2)" by simp
  have IH: "spec_chain (y + 1) ?xs =
     map (\<lambda>i. [- (y + 1 + int i), ?xs ! i, y + 1 + int i + 1]) [0 ..< length ?xs - 2]
     @ [[- (y + 1 + int (length ?xs - 2)), ?xs ! (length ?xs - 2), ?xs ! (length ?xs - 1)]]"
    using "1.IH" by simp
  have shift: "map (\<lambda>i. [- (y + int i), (x # ?xs) ! i, y + int i + 1]) [0 ..< Suc (length ?xs - 2)]
      = [- y, x, y + 1] # map (\<lambda>i. [- (y + 1 + int i), ?xs ! i, y + 1 + int i + 1]) [0 ..< length ?xs - 2]"
    by (simp add: map_upt_Suc del: upt_Suc)
  show ?case
    unfolding len shift using IH by (simp add: algebra_simps)
qed simp_all

lemma reduceSizeK_spec:
  assumes "4 \<le> length lits"
  shows "reduceSizeK n lits = (spec_rule n lits, n + int (spec_aux lits))"
proof -
  obtain x1 x2 x3 x4 ys where lits: "lits = x1 # x2 # x3 # x4 # ys"
    using assms by (cases lits rule: spec_aux.cases) auto
  let ?xs = "x3 # x4 # ys"
  let ?k = "length lits"
  have k: "?k - 3 = Suc (length ys)" "?k - 4 = length ys" "?k - 2 = Suc (Suc (length ys))"
    "?k - 1 = Suc (Suc (Suc (length ys)))"
    by (simp_all add: lits)
  have aux: "\<And>i. i < Suc (length ys) \<Longrightarrow> map (\<lambda>i. n + int i) [0 ..< Suc (length ys)] ! i = n + int i"
    by (metis add_0 nth_map_upt diff_zero)
  have mid: "map (\<lambda>i. [- (map (\<lambda>i. n + int i) [0 ..< Suc (length ys)] ! i), lits ! (i + 2),
                         map (\<lambda>i. n + int i) [0 ..< Suc (length ys)] ! (i + 1)]) [0 ..< length ys]
           = map (\<lambda>i. [- (n + int i), ?xs ! i, n + int i + 1]) [0 ..< length ?xs - 2]"
    by (rule map_cong) (auto simp: aux lits simp del: upt_Suc map_map)
  have ch: "spec_chain n ?xs =
     map (\<lambda>i. [- (n + int i), ?xs ! i, n + int i + 1]) [0 ..< length ?xs - 2]
     @ [[- (n + int (length ?xs - 2)), ?xs ! (length ?xs - 2), ?xs ! (length ?xs - 1)]]"
    by (rule spec_chain_nth) simp
  have fin: "[- (map (\<lambda>i. n + int i) [0 ..< Suc (length ys)] ! length ys),
              lits ! Suc (Suc (length ys)), lits ! Suc (Suc (Suc (length ys)))]
        = [- (n + int (length ?xs - 2)), ?xs ! (length ?xs - 2), ?xs ! (length ?xs - 1)]"
    using aux[of "length ys"] by (simp add: lits del: upt_Suc)
  have fst0: "map (\<lambda>i. n + int i) [0 ..< Suc (length ys)] ! 0 = n"
    using aux[of 0] by simp
  have "reduceSizeK n lits =
     ([lits ! 0, lits ! 1, map (\<lambda>i. n + int i) [0 ..< Suc (length ys)] ! 0]
       # map (\<lambda>i. [- (map (\<lambda>i. n + int i) [0 ..< Suc (length ys)] ! i), lits ! (i + 2),
                         map (\<lambda>i. n + int i) [0 ..< Suc (length ys)] ! (i + 1)]) [0 ..< length ys]
       @ [[- (map (\<lambda>i. n + int i) [0 ..< Suc (length ys)] ! length ys),
              lits ! Suc (Suc (length ys)), lits ! Suc (Suc (Suc (length ys)))]],
      n + int (Suc (length ys)))"
    using assms unfolding reduceSizeK_def Let_def k by (simp del: upt_Suc)
  also have "\<dots> = ([x1, x2, n] # spec_chain n ?xs, n + int (Suc (length ys)))"
    unfolding mid fin fst0 ch by (simp add: lits)
  finally show ?thesis by (simp add: lits)
qed

lemma reduce_loop_Cons:
  "reduce_loop n (c # rest) =
     ((if c = [] then [] else spec_rule n c) @ fst (reduce_loop (n + int (spec_aux c)) rest),
      snd (reduce_loop (n + int (spec_aux c)) rest))"
proof (cases c rule: spec_aux.cases)
  case (5 v va vb vc vd)
  then have "4 \<le> length c" by simp
  from reduceSizeK_spec[OF this, of n] 5 show ?thesis
    by (simp add: split_def Let_def)
qed (simp_all add: reduceSize1_def reduceSize2_def split_def Let_def)

lemma reduce_loop_snd: "snd (reduce_loop n cs) = n + (\<Sum>c\<leftarrow>cs. int (spec_aux c))"
  by (induction cs arbitrary: n) (simp_all add: reduce_loop_Cons del: reduce_loop.simps(2))

lemma reduce_loop_append:
  "reduce_loop n (xs @ ys) =
     (fst (reduce_loop n xs) @ fst (reduce_loop (snd (reduce_loop n xs)) ys),
      snd (reduce_loop (snd (reduce_loop n xs)) ys))"
  by (induction xs arbitrary: n) (simp_all add: reduce_loop_Cons del: reduce_loop.simps(2))

lemma spec_chain_len3: "2 \<le> length xs \<Longrightarrow> d \<in> set (spec_chain y xs) \<Longrightarrow> length d = 3"
  by (induction y xs rule: spec_chain.induct) auto

lemma spec_rule_len3: "c \<noteq> [] \<Longrightarrow> d \<in> set (spec_rule y c) \<Longrightarrow> length d = 3"
  by (cases c rule: spec_aux.cases) (auto dest: spec_chain_len3[rotated])

lemma spec_chain_length: "2 \<le> length xs \<Longrightarrow> length (spec_chain y xs) = length xs - 1"
  by (induction y xs rule: spec_chain.induct) auto

lemma spec_rule_length:
  "length (spec_rule y c) = (if length c \<le> 1 then 4 * length c + (1 - length c) else if length c \<le> 3 then 4 - length c else length c - 2)"
  by (cases c rule: spec_aux.cases) (auto simp: spec_chain_length)

lemma reduce_clauses: "clauses (fst (reduce F)) = fst (reduce_loop (numVars F + 1) (clauses F))"
  by (simp add: reduce_def split_def Let_def)

lemma reduce_numVars: "numVars (fst (reduce F)) = numVars F + (\<Sum>c\<leftarrow>clauses F. int (spec_aux c))"
  using reduce_loop_snd[of "numVars F + 1" "clauses F"]
  by (simp add: reduce_def split_def Let_def)

text \<open>
  Claim C3. Every non-empty clause \<open>c\<close> of the input, wherever it stands in the clause list,
  is replaced by exactly the clauses \<open>spec_rule n c\<close> of the replacement table, where \<open>n\<close> is
  the counter at that point: \<open>N + 1\<close> plus the auxiliaries minted for the clauses before it.
  A unit clause gives four clauses over two fresh variables, a binary clause two clauses
  over one fresh variable, a ternary clause passes through, and a clause of \<open>k \<ge> 4\<close>
  literals gives the chain of \<open>k - 2\<close> clauses over \<open>k - 3\<close> consecutive fresh variables.
  Each emitted clause has three literals, and the reduced variable count is \<open>N\<close> plus all
  auxiliaries. The witness is the specification's example: \<open>1 2 3 4 5\<close> with \<open>N = 5\<close> gives
  \<open>1 2 6\<close>, \<open>-6 3 7\<close>, \<open>-7 4 5\<close>.
\<close>
theorem C3_reduce_follows_rules:
  assumes "clauses F = pre @ c # post" and "c \<noteq> []"
    and "n = numVars F + 1 + (\<Sum>c'\<leftarrow>pre. int (spec_aux c'))"
  shows "clauses (fst (reduce F)) =
           fst (reduce_loop (numVars F + 1) pre) @ spec_rule n c
             @ fst (reduce_loop (n + int (spec_aux c)) post)
         \<and> (\<forall>d \<in> set (spec_rule n c). length d = 3)
         \<and> numVars (fst (reduce F)) = numVars F + (\<Sum>c'\<leftarrow>clauses F. int (spec_aux c'))"
proof -
  have "snd (reduce_loop (numVars F + 1) pre) = n"
    using assms(3) by (simp add: reduce_loop_snd)
  then have "fst (reduce_loop (numVars F + 1) (pre @ c # post)) =
      fst (reduce_loop (numVars F + 1) pre) @ spec_rule n c
             @ fst (reduce_loop (n + int (spec_aux c)) post)"
    using assms(2) by (simp add: reduce_loop_append reduce_loop_Cons del: reduce_loop.simps(2))
  then show ?thesis
    using assms(1,2) by (simp add: reduce_clauses reduce_numVars spec_rule_len3)
qed

theorem C3_reduce_follows_rules_witness:
  "clauses (fst (reduce \<lparr>numVars = 5, numClauses = 1, clauses = [[1, 2, 3, 4, 5]]\<rparr>))
     = [[1, 2, 6], [- 6, 3, 7], [- 7, 4, 5]]
   \<and> numVars (fst (reduce \<lparr>numVars = 5, numClauses = 1, clauses = [[1, 2, 3, 4, 5]]\<rparr>)) = 7"
  using C3_reduce_follows_rules [of "\<lparr>numVars = 5, numClauses = 1, clauses = [[1, 2, 3, 4, 5]]\<rparr>"
      "[]" "[1, 2, 3, 4, 5]" "[]" 6]
  by simp

text \<open>
  Claim C7 says that an empty clause of the input survives as an empty clause of the
  output. The clause loop skips it (\<open>if (size == 0) continue\<close>): the input \<open>[[], [1, 2, 3]]\<close>
  reduces to \<open>[[1, 2, 3]]\<close>.
\<close>
theorem C7_empty_clause_dropped_counterexample:
  "clauses (fst (reduce \<lparr>numVars = 3, numClauses = 2, clauses = [[], [1, 2, 3]]\<rparr>)) = [[1, 2, 3]]"
  by (simp add: reduce_def)

lemma reduce_loop_len3: "d \<in> set (fst (reduce_loop n cs)) \<Longrightarrow> length d = 3"
proof (induction cs arbitrary: n)
  case Nil
  then show ?case by simp
next
  case (Cons c cs)
  then show ?case
    by (auto simp: reduce_loop_Cons spec_rule_len3 simp del: reduce_loop.simps(2) split: if_splits)
qed

lemma reduce_loop_filter:
  "reduce_loop n (filter (\<lambda>c. c \<noteq> []) cs) = reduce_loop n cs"
  by (induction cs arbitrary: n) (simp_all add: reduce_loop_Cons del: reduce_loop.simps(2))

text \<open>
  Claim C7, amended. Every clause of the reducer's output has exactly three literals, and
  empty clauses of the input are dropped: the reduced formula is the one obtained from
  the input with its empty clauses removed.
\<close>
theorem C7_three_literals_empty_dropped:
  "(\<forall>d \<in> set (clauses (fst (reduce F))). length d = 3)
   \<and> fst (reduce F) = fst (reduce (F\<lparr>clauses := filter (\<lambda>c. c \<noteq> []) (clauses F)\<rparr>))"
  by (simp add: reduce_loop_len3 reduce_clauses) (simp add: reduce_def split_def Let_def reduce_loop_filter)

theorem C7_three_literals_empty_dropped_witness:
  "list_all (\<lambda>d. length d = 3) (clauses (fst (reduce \<lparr>numVars = 3, numClauses = 3, clauses = [[], [1], [1, 2, 3, -1]]\<rparr>)))
   \<and> fst (reduce \<lparr>numVars = 3, numClauses = 3, clauses = [[], [1], [1, 2, 3, -1]]\<rparr>)
     = \<lparr>numVars = 6, numClauses = 6, clauses = [[1, 4, 5], [1, 4, -5], [1, -4, 5], [1, -4, -5], [1, 2, 6], [-6, 3, -1]]\<rparr>"
  using C7_three_literals_empty_dropped [of "\<lparr>numVars = 3, numClauses = 3, clauses = [[], [1], [1, 2, 3, -1]]\<rparr>"]
  by (simp add: reduce_def reduceSize1_def reduceSizeK_def)

lemma reduce_loop_length:
  "int (length (fst (reduce_loop n cs))) = (\<Sum>c\<leftarrow>cs. if c = [] then 0 else int (length (spec_rule n c)))"
proof (induction cs arbitrary: n)
  case Nil
  then show ?case by simp
next
  case (Cons c cs)
  have "\<And>m. (\<Sum>c\<leftarrow>cs. if c = [] then 0 else int (length (spec_rule m c)))
       = (\<Sum>c\<leftarrow>cs. if c = [] then 0 else int (length (spec_rule n c)))"
    by (simp add: spec_rule_length cong: if_cong)
  with Cons show ?case
    by (simp add: reduce_loop_Cons del: reduce_loop.simps(2))
qed

lemma spec_aux_le: "int (spec_aux c) \<le> 2 * int (length c)"
  by (cases c rule: spec_aux.cases) simp_all

lemma spec_aux_le1: "length c \<noteq> 1 \<Longrightarrow> int (spec_aux c) \<le> int (length c)"
  by (cases c rule: spec_aux.cases) simp_all

lemma emitted_le: "(if c = [] then 0 else int (length (spec_rule n c))) \<le> 4 * int (length c)"
  by (cases c rule: spec_aux.cases) (simp_all add: spec_chain_length)

lemma emitted_le1:
  "length c \<noteq> 1 \<Longrightarrow> (if c = [] then 0 else int (length (spec_rule n c))) \<le> int (length c)"
  by (cases c rule: spec_aux.cases) (simp_all add: spec_chain_length)

lemma sum_list_int_mono:
  "(\<And>x. x \<in> set xs \<Longrightarrow> f x \<le> (g x :: int)) \<Longrightarrow> sum_list (map f xs) \<le> sum_list (map g xs)"
  by (induction xs) (auto intro: add_mono)

text \<open>
  Claim C8, amended. With \<open>L\<close> the total number of literals of the input,
  \<open>ReducedVars - OriginalVars \<le> 2 L\<close> and \<open>ReducedClauses \<le> 4 L\<close>; when no clause of the
  input has exactly one literal, both are at most \<open>L\<close>, as the claim states.
\<close>
theorem C8_reduction_growth_bounds:
  fixes F :: CNFFormula
  defines "st \<equiv> snd (reduce F)"
  defines "L \<equiv> (\<Sum>c\<leftarrow>clauses F. int (length c))"
  shows "totalLiteralsOriginal st = L
       \<and> reducedVars st - originalVars st \<le> 2 * L
       \<and> reducedClauses st \<le> 4 * L
       \<and> ((\<forall>c \<in> set (clauses F). length c \<noteq> 1) \<longrightarrow>
            reducedVars st - originalVars st \<le> L \<and> reducedClauses st \<le> L)"
proof -
  let ?n = "numVars F + 1"
  have vars: "reducedVars st - originalVars st = (\<Sum>c\<leftarrow>clauses F. int (spec_aux c))"
    using reduce_loop_snd[of ?n "clauses F"]
    by (simp add: st_def reduce_def split_def Let_def)
  have cls: "reducedClauses st = (\<Sum>c\<leftarrow>clauses F. if c = [] then 0 else int (length (spec_rule ?n c)))"
    using reduce_loop_length[of ?n "clauses F"]
    by (simp add: st_def reduce_def split_def Let_def)
  have tot: "totalLiteralsOriginal st = L"
    by (simp add: st_def L_def reduce_def split_def Let_def)
  have v2: "(\<Sum>c\<leftarrow>clauses F. int (spec_aux c)) \<le> (\<Sum>c\<leftarrow>clauses F. 2 * int (length c))"
    by (rule sum_list_int_mono) (rule spec_aux_le)
  have c4: "(\<Sum>c\<leftarrow>clauses F. if c = [] then 0 else int (length (spec_rule ?n c)))
             \<le> (\<Sum>c\<leftarrow>clauses F. 4 * int (length c))"
    by (rule sum_list_int_mono) (rule emitted_le)
  have dbl: "(\<Sum>c\<leftarrow>clauses F. 2 * int (length c)) = 2 * L"
            "(\<Sum>c\<leftarrow>clauses F. 4 * int (length c)) = 4 * L"
    by (simp_all add: L_def sum_list_const_mult)
  have nounit: "reducedVars st - originalVars st \<le> L \<and> reducedClauses st \<le> L"
    if "\<forall>c \<in> set (clauses F). length c \<noteq> 1"
  proof
    show "reducedVars st - originalVars st \<le> L"
      unfolding vars L_def using that by (intro sum_list_int_mono spec_aux_le1) simp
    show "reducedClauses st \<le> L"
      unfolding cls L_def using that by (intro sum_list_int_mono emitted_le1) simp
  qed
  show ?thesis
    using tot v2 c4 nounit unfolding vars cls dbl by blast
qed

theorem C8_reduction_growth_bounds_witness:
  "reducedVars (snd (reduce \<lparr>numVars = 4, numClauses = 2, clauses = [[1, 2], [1, -2, 3, 4]]\<rparr>))
     - originalVars (snd (reduce \<lparr>numVars = 4, numClauses = 2, clauses = [[1, 2], [1, -2, 3, 4]]\<rparr>)) \<le> 6
   \<and> reducedClauses (snd (reduce \<lparr>numVars = 4, numClauses = 2, clauses = [[1, 2], [1, -2, 3, 4]]\<rparr>)) \<le> 6"
  using C8_reduction_growth_bounds [of "\<lparr>numVars = 4, numClauses = 2, clauses = [[1, 2], [1, -2, 3, 4]]\<rparr>"]
  by simp

text \<open>
  Claim C8 as stated fails on a unit clause: \<open>(1)\<close> with \<open>N = 1\<close> has \<open>L = 1\<close>, and its
  reduction adds two variables and has four clauses.
\<close>
theorem C8_unit_clause_counterexample:
  "\<not> (reducedVars (snd (reduce \<lparr>numVars = 1, numClauses = 1, clauses = [[1]]\<rparr>))
        - originalVars (snd (reduce \<lparr>numVars = 1, numClauses = 1, clauses = [[1]]\<rparr>))
          \<le> totalLiteralsOriginal (snd (reduce \<lparr>numVars = 1, numClauses = 1, clauses = [[1]]\<rparr>)))
   \<and> \<not> (reducedClauses (snd (reduce \<lparr>numVars = 1, numClauses = 1, clauses = [[1]]\<rparr>))
          \<le> totalLiteralsOriginal (snd (reduce \<lparr>numVars = 1, numClauses = 1, clauses = [[1]]\<rparr>)))"
  by (simp add: reduce_def reduceSize1_def)

subsection \<open>Equisatisfiability of the reduction\<close>

lemma lit_true_compl: "\<not> (lit_true A l \<and> lit_true A (- l))"
  by (auto simp: lit_true_def split: if_splits)

lemma lit_true_agree: "A' \<bar>l\<bar> = A \<bar>l\<bar> \<Longrightarrow> lit_true A' l = lit_true A l"
  by (auto simp: lit_true_def abs_if split: if_splits)

lemma clause_sat_agree:
  "(\<And>l. l \<in> set c \<Longrightarrow> A' \<bar>l\<bar> = A \<bar>l\<bar>) \<Longrightarrow> clause_sat A' c = clause_sat A c"
  unfolding clause_sat_def using lit_true_agree by blast

lemma formula_sat_agree:
  "(\<And>c l. c \<in> set cs \<Longrightarrow> l \<in> set c \<Longrightarrow> A' \<bar>l\<bar> = A \<bar>l\<bar>) \<Longrightarrow> formula_sat A' cs = formula_sat A cs"
  unfolding formula_sat_def using clause_sat_agree by blast

lemma clause_sat3 [simp]:
  "clause_sat A [a, b, c] = (lit_true A a \<or> lit_true A b \<or> lit_true A c)"
  by (auto simp: clause_sat_def)

lemma formula_sat_Cons [simp]: "formula_sat A (c # cs) = (clause_sat A c \<and> formula_sat A cs)"
  by (auto simp: formula_sat_def)

lemma formula_sat_Nil [simp]: "formula_sat A []"
  by (simp add: formula_sat_def)

lemma formula_sat_append [simp]:
  "formula_sat A (xs @ ys) = (formula_sat A xs \<and> formula_sat A ys)"
  by (auto simp: formula_sat_def)

lemma clause_sat_Cons: "clause_sat A (l # c) = (lit_true A l \<or> clause_sat A c)"
  by (auto simp: clause_sat_def)

text \<open>From the reduced clauses back to the original one.\<close>

lemma spec_chain_sound:
  "2 \<le> length xs \<Longrightarrow> formula_sat A (spec_chain y xs) \<Longrightarrow> lit_true A (- y) \<or> clause_sat A xs"
proof (induction y xs rule: spec_chain.induct)
  case (1 y x a b xs)
  then have h: "lit_true A (- y) \<or> lit_true A x \<or> lit_true A (y + 1)"
    and r: "lit_true A (- (y + 1)) \<or> clause_sat A (a # b # xs)"
    by simp_all
  show ?case
    using h r lit_true_compl[of A "y + 1"] by (auto simp: clause_sat_Cons)
next
  case (2 y a b)
  then show ?case by (auto simp: clause_sat_Cons)
qed simp_all

lemma spec_rule_sound:
  assumes "c \<noteq> []" "formula_sat A (spec_rule y c)"
  shows "clause_sat A c"
proof (cases c rule: spec_aux.cases)
  case 1
  with assms show ?thesis by simp
next
  case (2 x)
  with assms show ?thesis
    using lit_true_compl[of A y] lit_true_compl[of A "y + 1"]
    by (auto simp: clause_sat_Cons)
next
  case (3 a b)
  with assms show ?thesis
    using lit_true_compl[of A y] by (auto simp: clause_sat_Cons)
next
  case (4 a b c')
  with assms show ?thesis by simp
next
  case (5 x1 x2 x3 x4 xs)
  with assms have h: "lit_true A x1 \<or> lit_true A x2 \<or> lit_true A y"
    and ch: "formula_sat A (spec_chain y (x3 # x4 # xs))"
    by simp_all
  from spec_chain_sound[OF _ ch] have "lit_true A (- y) \<or> clause_sat A (x3 # x4 # xs)" by simp
  with h lit_true_compl[of A y] 5 show ?thesis
    by (auto simp: clause_sat_Cons)
qed

lemma reduce_loop_sound:
  "[] \<notin> set cs \<Longrightarrow> formula_sat A (fst (reduce_loop n cs)) \<Longrightarrow> formula_sat A cs"
proof (induction cs arbitrary: n)
  case Nil
  show ?case by simp
next
  case (Cons c cs)
  then have ne: "c \<noteq> []" and rest: "[] \<notin> set cs" by auto
  from Cons.prems(2) ne have a: "formula_sat A (spec_rule n c)"
    and b: "formula_sat A (fst (reduce_loop (n + int (spec_aux c)) cs))"
    by (simp_all add: reduce_loop_Cons del: reduce_loop.simps(2))
  from spec_rule_sound[OF ne a] Cons.IH[OF rest b] show ?case by simp
qed

text \<open>From the original clause to the reduced ones: the auxiliary variables can be set so
  that the chain is satisfied, without touching the variables below them.\<close>

lemma spec_chain_complete:
  "2 \<le> length xs \<Longrightarrow> 0 < y \<Longrightarrow> \<forall>l \<in> set xs. \<bar>l\<bar> < y \<Longrightarrow>
   A y = Some False \<or> clause_sat A xs \<Longrightarrow>
   \<exists>A'. (\<forall>v. v \<le> y \<longrightarrow> A' v = A v) \<and> formula_sat A' (spec_chain y xs)"
proof (induction y xs arbitrary: A rule: spec_chain.induct)
  case (1 y x a b xs)
  let ?rest = "a # b # xs"
  have small: "\<forall>l \<in> set ?rest. \<bar>l\<bar> < y + 1" and xs: "\<bar>x\<bar> < y"
    using "1.prems"(3) by auto
  show ?case
  proof (cases "A y = Some False \<or> lit_true A x")
    case True
    let ?A1 = "A(y + 1 \<mapsto> False)"
    have "\<exists>A'. (\<forall>v. v \<le> y + 1 \<longrightarrow> A' v = ?A1 v) \<and> formula_sat A' (spec_chain (y + 1) ?rest)"
    proof (rule "1.IH")
      show "2 \<le> length ?rest" by simp
      show "0 < y + 1" using "1.prems"(2) by simp
      show "\<forall>l \<in> set ?rest. \<bar>l\<bar> < y + 1" by (rule small)
      show "?A1 (y + 1) = Some False \<or> clause_sat ?A1 ?rest" by simp
    qed
    then obtain A' where
      ag: "\<forall>v. v \<le> y + 1 \<longrightarrow> A' v = ?A1 v" and ch: "formula_sat A' (spec_chain (y + 1) ?rest)"
      by blast
    have agA: "\<forall>v. v \<le> y \<longrightarrow> A' v = A v" using ag by auto
    have "lit_true A' (- y) \<or> lit_true A' x"
    proof -
      have "lit_true A' x = lit_true A x"
        by (rule lit_true_agree) (use agA xs in auto)
      moreover have "lit_true A' (- y) = (A y = Some False)"
        using agA "1.prems"(2) by (simp add: lit_true_def)
      ultimately show ?thesis using True by blast
    qed
    with agA ch show ?thesis by auto
  next
    case False
    with "1.prems"(4) have cs: "clause_sat A ?rest" by (auto simp: clause_sat_Cons)
    let ?A1 = "A(y + 1 \<mapsto> True)"
    have "clause_sat ?A1 ?rest = clause_sat A ?rest"
      by (rule clause_sat_agree) (use small in auto)
    with cs have cs1: "clause_sat ?A1 ?rest" by simp
    have "\<exists>A'. (\<forall>v. v \<le> y + 1 \<longrightarrow> A' v = ?A1 v) \<and> formula_sat A' (spec_chain (y + 1) ?rest)"
    proof (rule "1.IH")
      show "2 \<le> length ?rest" by simp
      show "0 < y + 1" using "1.prems"(2) by simp
      show "\<forall>l \<in> set ?rest. \<bar>l\<bar> < y + 1" by (rule small)
      show "?A1 (y + 1) = Some False \<or> clause_sat ?A1 ?rest" using cs1 by blast
    qed
    then obtain A' where
      ag: "\<forall>v. v \<le> y + 1 \<longrightarrow> A' v = ?A1 v" and ch: "formula_sat A' (spec_chain (y + 1) ?rest)"
      by blast
    have agA: "\<forall>v. v \<le> y \<longrightarrow> A' v = A v" using ag by auto
    have "lit_true A' (y + 1)"
      using ag "1.prems"(2) by (simp add: lit_true_def)
    with agA ch show ?thesis by auto
  qed
next
  case (2 y a b)
  have "lit_true A (- y) = (A y = Some False)"
    using "2.prems"(2) by (simp add: lit_true_def)
  with "2.prems"(4) have "formula_sat A (spec_chain y [a, b])"
    by (auto simp: clause_sat_Cons)
  then show ?case by blast
qed simp_all

lemma spec_rule_complete:
  assumes "c \<noteq> []" "\<forall>l \<in> set c. \<bar>l\<bar> < y" "clause_sat A c"
  shows "\<exists>A'. (\<forall>v. v < y \<longrightarrow> A' v = A v) \<and> formula_sat A' (spec_rule y c)"
proof (cases c rule: spec_aux.cases)
  case 1
  with assms show ?thesis by simp
next
  case (2 x)
  with assms have "formula_sat A (spec_rule y c)" by (auto simp: clause_sat_Cons)
  then show ?thesis by blast
next
  case (3 a b)
  with assms have "formula_sat A (spec_rule y c)" by (auto simp: clause_sat_Cons)
  then show ?thesis by blast
next
  case (4 a b c')
  with assms have "formula_sat A (spec_rule y c)" by (auto simp: clause_sat_Cons)
  then show ?thesis by blast
next
  case (5 x1 x2 x3 x4 xs)
  let ?xs = "x3 # x4 # xs"
  have ypos: "0 < y" using assms(2) 5 by fastforce
  have small: "\<forall>l \<in> set ?xs. \<bar>l\<bar> < y" and s1: "\<bar>x1\<bar> < y" and s2: "\<bar>x2\<bar> < y"
    using assms(2) 5 by auto
  show ?thesis
  proof (cases "lit_true A x1 \<or> lit_true A x2")
    case True
    let ?A1 = "A(y \<mapsto> False)"
    have "\<exists>A'. (\<forall>v. v \<le> y \<longrightarrow> A' v = ?A1 v) \<and> formula_sat A' (spec_chain y ?xs)"
    proof (rule spec_chain_complete)
      show "2 \<le> length ?xs" by simp
      show "0 < y" by (rule ypos)
      show "\<forall>l \<in> set ?xs. \<bar>l\<bar> < y" by (rule small)
      show "?A1 y = Some False \<or> clause_sat ?A1 ?xs" by simp
    qed
    then obtain A' where
      ag: "\<forall>v. v \<le> y \<longrightarrow> A' v = ?A1 v" and ch: "formula_sat A' (spec_chain y ?xs)"
      by blast
    have agA: "\<forall>v. v < y \<longrightarrow> A' v = A v" using ag by auto
    have e1: "lit_true A' x1 = lit_true A x1"
      by (rule lit_true_agree) (use agA s1 in auto)
    have e2: "lit_true A' x2 = lit_true A x2"
      by (rule lit_true_agree) (use agA s2 in auto)
    from True e1 e2 agA ch 5 show ?thesis by auto
  next
    case False
    with assms(3) 5 have cs: "clause_sat A ?xs" by (auto simp: clause_sat_Cons)
    let ?A1 = "A(y \<mapsto> True)"
    have "clause_sat ?A1 ?xs = clause_sat A ?xs"
      by (rule clause_sat_agree) (use small in auto)
    with cs have cs1: "clause_sat ?A1 ?xs" by simp
    have "\<exists>A'. (\<forall>v. v \<le> y \<longrightarrow> A' v = ?A1 v) \<and> formula_sat A' (spec_chain y ?xs)"
    proof (rule spec_chain_complete)
      show "2 \<le> length ?xs" by simp
      show "0 < y" by (rule ypos)
      show "\<forall>l \<in> set ?xs. \<bar>l\<bar> < y" by (rule small)
      show "?A1 y = Some False \<or> clause_sat ?A1 ?xs" using cs1 by blast
    qed
    then obtain A' where
      ag: "\<forall>v. v \<le> y \<longrightarrow> A' v = ?A1 v" and ch: "formula_sat A' (spec_chain y ?xs)"
      by blast
    have agA: "\<forall>v. v < y \<longrightarrow> A' v = A v" using ag by auto
    have "lit_true A' y" using ag ypos by (simp add: lit_true_def)
    with agA ch 5 show ?thesis by auto
  qed
qed

lemma spec_chain_vars:
  "2 \<le> length xs \<Longrightarrow> 0 < y \<Longrightarrow> \<forall>l \<in> set xs. \<bar>l\<bar> < y \<Longrightarrow>
   d \<in> set (spec_chain y xs) \<Longrightarrow> l \<in> set d \<Longrightarrow> \<bar>l\<bar> < y + int (length xs) - 1"
proof (induction y xs rule: spec_chain.induct)
  case (1 y x a b xs)
  from "1.prems"(4) consider "d = [- y, x, y + 1]" | "d \<in> set (spec_chain (y + 1) (a # b # xs))"
    by auto
  then show ?case
  proof cases
    case 1
    with "1.prems" show ?thesis by auto
  next
    case 2
    have "\<forall>l \<in> set (a # b # xs). \<bar>l\<bar> < y + 1" using "1.prems"(3) by auto
    from "1.IH"[OF _ _ this 2 "1.prems"(5)] "1.prems"(2) show ?thesis by simp
  qed
next
  case (2 y a b)
  then show ?case by auto
qed simp_all

lemma spec_rule_vars:
  assumes "c \<noteq> []" "\<forall>l \<in> set c. \<bar>l\<bar> < y" "d \<in> set (spec_rule y c)" "l \<in> set d"
  shows "\<bar>l\<bar> < y + int (spec_aux c)"
proof (cases c rule: spec_aux.cases)
  case 1
  with assms show ?thesis by simp
next
  case (2 x)
  with assms show ?thesis by auto
next
  case (3 a b)
  with assms show ?thesis by auto
next
  case (4 a b c')
  with assms show ?thesis by auto
next
  case (5 x1 x2 x3 x4 xs)
  have ypos: "0 < y" using assms(2) 5 by fastforce
  from assms(3) 5 consider "d = [x1, x2, y]" | "d \<in> set (spec_chain y (x3 # x4 # xs))"
    by auto
  then show ?thesis
  proof cases
    case 1
    with assms 5 ypos show ?thesis by auto
  next
    case 2
    have "\<forall>l \<in> set (x3 # x4 # xs). \<bar>l\<bar> < y" using assms(2) 5 by auto
    from spec_chain_vars[OF _ ypos this 2 assms(4)] 5 show ?thesis by simp
  qed
qed

lemma reduce_loop_complete:
  "\<forall>c \<in> set cs. \<forall>l \<in> set c. \<bar>l\<bar> < n \<Longrightarrow> formula_sat A cs \<Longrightarrow>
   \<exists>A'. (\<forall>v. v < n \<longrightarrow> A' v = A v) \<and> formula_sat A' (fst (reduce_loop n cs))"
proof (induction cs arbitrary: n A)
  case Nil
  show ?case by auto
next
  case (Cons c cs)
  from Cons.prems(2) have cs: "clause_sat A c" and fs: "formula_sat A cs" by simp_all
  then have ne: "c \<noteq> []" by (auto simp: clause_sat_def)
  have small: "\<forall>l \<in> set c. \<bar>l\<bar> < n" using Cons.prems(1) by simp
  let ?n' = "n + int (spec_aux c)"
  from spec_rule_complete[OF ne small cs] obtain A1 where
    a1: "\<forall>v. v < n \<longrightarrow> A1 v = A v" and r1: "formula_sat A1 (spec_rule n c)"
    by blast
  have "formula_sat A1 cs = formula_sat A cs"
    by (rule formula_sat_agree) (use a1 Cons.prems(1) in auto)
  with fs have fs1: "formula_sat A1 cs" by simp
  have "\<forall>c \<in> set cs. \<forall>l \<in> set c. \<bar>l\<bar> < ?n'" using Cons.prems(1) by fastforce
  from Cons.IH[OF this fs1] obtain A2 where
    a2: "\<forall>v. v < ?n' \<longrightarrow> A2 v = A1 v" and r2: "formula_sat A2 (fst (reduce_loop ?n' cs))"
    by blast
  have "formula_sat A2 (spec_rule n c) = formula_sat A1 (spec_rule n c)"
  proof (rule formula_sat_agree)
    fix d l assume "d \<in> set (spec_rule n c)" "l \<in> set d"
    from spec_rule_vars[OF ne small this] a2 show "A2 \<bar>l\<bar> = A1 \<bar>l\<bar>" by simp
  qed
  with r1 have "formula_sat A2 (spec_rule n c)" by simp
  moreover have "\<forall>v. v < n \<longrightarrow> A2 v = A v" using a1 a2 by auto
  ultimately show ?case
    using r2 ne by (auto simp: reduce_loop_Cons simp del: reduce_loop.simps(2))
qed

lemma restrict_sat:
  assumes "\<forall>c \<in> set cs. \<forall>l \<in> set c. 1 \<le> \<bar>l\<bar> \<and> \<bar>l\<bar> \<le> n" "formula_sat A cs"
  shows "formula_sat (A |` {1 .. n}) cs"
proof -
  have "formula_sat (A |` {1 .. n}) cs = formula_sat A cs"
    by (rule formula_sat_agree) (use assms(1) in \<open>auto simp: restrict_map_def\<close>)
  with assms(2) show ?thesis by simp
qed

text \<open>
  Claim C2 says that the reduced formula is equisatisfiable with the input for every input
  formula. The clause loop drops an empty clause, so an unsatisfiable input with an empty
  clause can have a satisfiable reduction: \<open>[[], [1]]\<close> with \<open>N = 1\<close> is unsatisfiable, its
  reduction is satisfied by setting variable 1 to true, and the restriction of that
  assignment to the original variable does not satisfy the input.
\<close>

theorem C2_empty_clause_counterexample:
  "\<not> (\<exists>A. formula_sat A (clauses \<lparr>numVars = 1, numClauses = 2, clauses = [[], [1]]\<rparr>))
   \<and> formula_sat [1 \<mapsto> True]
        (clauses (fst (reduce \<lparr>numVars = 1, numClauses = 2, clauses = [[], [1]]\<rparr>)))
   \<and> \<not> formula_sat ([1 \<mapsto> True] |` {1 .. 1})
          (clauses \<lparr>numVars = 1, numClauses = 2, clauses = [[], [1]]\<rparr>)"
  by (simp add: reduce_def reduceSize1_def clause_sat_def lit_true_def)

text \<open>
  Claim C2, amended. For every input formula that has no empty clause and whose literals
  have their variables in \<open>[1, N]\<close>, the reduced formula is equisatisfiable with the input:
  one is satisfiable exactly when the other is; every assignment that satisfies the
  reduced formula, restricted to the variables \<open>1 \<dots> N\<close>, satisfies the input; and every
  assignment that satisfies the input can be changed on the auxiliary variables alone so
  that it satisfies the reduced formula.
\<close>

theorem C2_reduction_equisatisfiable:
  assumes "wf_formula F" "[] \<notin> set (clauses F)"
  shows "((\<exists>A. formula_sat A (clauses F)) = (\<exists>A'. formula_sat A' (clauses (fst (reduce F)))))
       \<and> (\<forall>A'. formula_sat A' (clauses (fst (reduce F)))
               \<longrightarrow> formula_sat (A' |` {1 .. numVars F}) (clauses F))
       \<and> (\<forall>A. formula_sat A (clauses F)
               \<longrightarrow> (\<exists>A'. (\<forall>v. v \<le> numVars F \<longrightarrow> A' v = A v)
                         \<and> formula_sat A' (clauses (fst (reduce F)))))"
proof -
  let ?n = "numVars F + 1"
  have rng: "\<forall>c \<in> set (clauses F). \<forall>l \<in> set c. 1 \<le> \<bar>l\<bar> \<and> \<bar>l\<bar> \<le> numVars F"
    using assms(1) by (simp add: wf_formula_def)
  have bwd: "formula_sat (A' |` {1 .. numVars F}) (clauses F)"
    if "formula_sat A' (clauses (fst (reduce F)))" for A'
  proof -
    from that have "formula_sat A' (fst (reduce_loop ?n (clauses F)))"
      by (simp add: reduce_clauses)
    from reduce_loop_sound[OF assms(2) this] show ?thesis
      by (rule restrict_sat[OF rng])
  qed
  have fwd: "\<exists>A'. (\<forall>v. v \<le> numVars F \<longrightarrow> A' v = A v) \<and> formula_sat A' (clauses (fst (reduce F)))"
    if "formula_sat A (clauses F)" for A
  proof -
    have "\<forall>c \<in> set (clauses F). \<forall>l \<in> set c. \<bar>l\<bar> < ?n" using rng by fastforce
    from reduce_loop_complete[OF this that] show ?thesis
      by (auto simp: reduce_clauses)
  qed
  from bwd fwd show ?thesis by blast
qed

theorem C2_reduction_equisatisfiable_witness:
  "wf_formula \<lparr>numVars = 4, numClauses = 2, clauses = [[1, 2, 3, 4], [- 1]]\<rparr>
   \<and> [] \<notin> set (clauses \<lparr>numVars = 4, numClauses = 2, clauses = [[1, 2, 3, 4], [- 1]]\<rparr>)
   \<and> clauses (fst (reduce \<lparr>numVars = 4, numClauses = 2, clauses = [[1, 2, 3, 4], [- 1]]\<rparr>))
       = [[1, 2, 5], [- 5, 3, 4], [- 1, 6, 7], [- 1, 6, - 7], [- 1, - 6, 7], [- 1, - 6, - 7]]
   \<and> formula_sat [1 \<mapsto> False, 2 \<mapsto> True, 5 \<mapsto> False]
        (clauses (fst (reduce \<lparr>numVars = 4, numClauses = 2, clauses = [[1, 2, 3, 4], [- 1]]\<rparr>)))
   \<and> formula_sat ([1 \<mapsto> False, 2 \<mapsto> True, 5 \<mapsto> False] |` {1 .. 4}) [[1, 2, 3, 4], [- 1]]"
proof -
  let ?F = "\<lparr>numVars = 4, numClauses = 2, clauses = [[1, 2, 3, 4], [- 1]]\<rparr>"
  have wf: "wf_formula ?F" by (simp add: wf_formula_def)
  have ne: "[] \<notin> set (clauses ?F)" by simp
  have red: "clauses (fst (reduce ?F))
       = [[1, 2, 5], [- 5, 3, 4], [- 1, 6, 7], [- 1, 6, - 7], [- 1, - 6, 7], [- 1, - 6, - 7]]"
    by (simp add: reduce_def reduceSize1_def reduceSizeK_def)
  have sat: "formula_sat [1 \<mapsto> False, 2 \<mapsto> True, 5 \<mapsto> False] (clauses (fst (reduce ?F)))"
    unfolding red by (simp add: lit_true_def)
  from C2_reduction_equisatisfiable [OF wf ne] sat
  have "formula_sat ([1 \<mapsto> False, 2 \<mapsto> True, 5 \<mapsto> False] |` {1 .. numVars ?F}) (clauses ?F)"
    by blast
  then show ?thesis
    using wf ne red sat by simp
qed

section \<open>Properties of the verifier\<close>

lemma isSatisfied_total: "isSatisfied c a \<noteq> None"
  by (induction c) (auto simp: vec_at_def Let_def)

lemma isSatisfied_out_of_range:
  "int (length a) \<le> \<bar>l\<bar> \<Longrightarrow> isSatisfied (l # ls) a = isSatisfied ls a"
  by (simp add: Let_def)

lemma isSatisfied_unset:
  "vec_at a \<bar>l\<bar> = Some (- 1) \<Longrightarrow> isSatisfied (l # ls) a = isSatisfied ls a"
  by (simp add: Let_def)

lemma isSatisfied_all_out: "\<forall>l \<in> set c. int (length a) \<le> \<bar>l\<bar> \<Longrightarrow> isSatisfied c a = Some False"
  by (induction c) (simp_all add: Let_def)

lemma setLiteral_total: "setLiteral s lit \<noteq> None"
  by (simp add: setLiteral_def vec_set_def Let_def)

lemma setLiteral_out_of_range:
  "int (length (assignment s)) \<le> \<bar>lit\<bar> \<Longrightarrow> setLiteral s lit = Some s"
  by (simp add: setLiteral_def Let_def)

lemma verify_loop_total: "verify_loop cs a i ns nu idxs \<noteq> None"
proof (induction cs arbitrary: i ns nu idxs)
  case Nil
  show ?case by simp
next
  case (Cons c cs)
  obtain b where b: "isSatisfied c a = Some b"
    using isSatisfied_total[of c a] by auto
  show ?case
    using Cons[of "i + 1"] b by (cases b) (simp_all del: length_append)
qed

lemma verify_total: "verify inst s \<noteq> None"
proof (cases "verify_loop (inst_clauses inst) (assignment s) 0 0 0 []")
  case None
  then show ?thesis using verify_loop_total by blast
next
  case (Some r)
  then show ?thesis by (cases r) (simp add: verify_def)
qed

text \<open>\<open>setLiteral\<close> keeps the size of the vector, so at any point of parsing the vector has
  one entry more than the declared count.\<close>

lemma setLiteral_length:
  "setLiteral s lit = Some s' \<Longrightarrow>
   length (assignment s') = length (assignment s) \<and> sol_numVars s' = sol_numVars s"
  by (auto simp: setLiteral_def vec_set_def Let_def split: if_splits)

lemma parsing_state_length:
  "parsing_state n s \<Longrightarrow> int (length (assignment s)) = n + 1 \<and> sol_numVars s = n"
proof (induction rule: parsing_state.induct)
  case (constructed nVars s)
  then show ?case by (auto simp: Solution_new_def split: if_splits)
next
  case (literal_set nVars s lit s')
  then show ?case using setLiteral_length[of s lit s'] by simp
qed

lemma setLiteral_beyond_count:
  "parsing_state n s \<Longrightarrow> n < \<bar>lit\<bar> \<Longrightarrow> setLiteral s lit = Some s"
  using parsing_state_length[of n s] by (intro setLiteral_out_of_range) simp

text \<open>The literal loop never fails. \<open>SolutionParser::parse\<close> fails in three ways only: the
  file cannot be opened, the declared count is below \<open>-1\<close>, or a line is the bare \<open>v\<close>;
  otherwise it returns a solution, which is a parsing state.\<close>

lemma setLiteral_loop_state:
  "parsing_state n s \<Longrightarrow> \<exists>s'. setLiteral_loop lits s = Some s' \<and> parsing_state n s'"
proof (induction lits arbitrary: s)
  case Nil
  then show ?case by simp
next
  case (Cons l ls)
  obtain s1 where s1: "setLiteral s l = Some s1"
    using setLiteral_total[of s l] by auto
  with Cons.prems have "parsing_state n s1"
    by (rule parsing_state.literal_set)
  from Cons.IH[OF this] s1 Cons.prems show ?case by simp
qed

lemma parse_lines_result:
  "parsing_state n s \<Longrightarrow>
   (if [CHR ''v''] \<in> set lines then parse_lines extract lines s = Inl SubstrOutOfRange
    else \<exists>s'. parse_lines extract lines s = Inr s' \<and> parsing_state n s')"
proof (induction lines arbitrary: s)
  case Nil
  then show ?case by simp
next
  case (Cons line rest)
  show ?case
  proof (cases "line \<noteq> [] \<and> hd line = CHR ''v''")
    case False
    then have "parse_lines extract (line # rest) s = parse_lines extract rest s"
      by auto
    moreover from False have "line \<noteq> [CHR ''v'']" by auto
    ultimately show ?thesis using Cons.IH[OF Cons.prems] by simp
  next
    case True
    show ?thesis
    proof (cases "line = [CHR ''v'']")
      case bare: True
      then show ?thesis by (simp add: parse_v_line_def)
    next
      case False
      with True have len: "\<not> 2 > length line"
        by (cases line) (auto simp: Suc_le_eq)
      obtain s1 where s1: "setLiteral_loop (extract (drop 2 line)) s = Some s1"
        and p1: "parsing_state n s1"
        using setLiteral_loop_state[OF Cons.prems] by blast
      from True len s1 have "parse_lines extract (line # rest) s = parse_lines extract rest s1"
        by (simp add: parse_v_line_def)
      then show ?thesis using Cons.IH[OF p1] False by simp
    qed
  qed
qed

lemma SolutionParser_parse_result:
  "(case file of
      None \<Rightarrow> SolutionParser_parse extract file nVars = Inl CannotOpen
    | Some lines \<Rightarrow>
        if nVars < - 1 then SolutionParser_parse extract file nVars = Inl LengthError
        else if [CHR ''v''] \<in> set lines then
          SolutionParser_parse extract file nVars = Inl SubstrOutOfRange
        else \<exists>s. SolutionParser_parse extract file nVars = Inr s \<and> parsing_state nVars s)"
proof (cases "file")
  case None
  then show ?thesis by (simp add: SolutionParser_parse_def)
next
  case (Some lines)
  show ?thesis
  proof (cases "nVars < - 1")
    case True
    then show ?thesis using Some by (simp add: SolutionParser_parse_def Solution_new_def)
  next
    case False
    define s0 where "s0 = \<lparr> assignment = replicate (nat (nVars + 1)) (- 1), sol_numVars = nVars \<rparr>"
    have new: "Solution_new nVars = Inr s0"
      using False by (simp add: Solution_new_def s0_def)
    then have "parsing_state nVars s0" by (rule parsing_state.constructed)
    then show ?thesis
      using parse_lines_result[of nVars s0 "lines" "extract"] new Some False
      by (simp add: SolutionParser_parse_def)
  qed
qed

text \<open>
  Claim C10. Clause evaluation never reads the assignment vector out of bounds (no run of
  \<open>isSatisfied\<close> reaches \<open>None\<close>); a literal whose variable index is at or beyond the length
  of the vector is skipped like an unset one, so a clause of such literals only is not
  satisfied. \<open>setLiteral\<close> never writes out of bounds, whatever the solution holds; a
  literal whose variable index is at or beyond the length of the vector leaves the
  solution as it is, the values set earlier included; and so does, at any point of
  parsing, a literal whose variable exceeds the declared count. Verifying any instance
  against any solution produces a report. The exceptions that \<open>SolutionParser::parse\<close>
  raises before there is a solution to verify are those of lemma
  \<open>SolutionParser_parse_result\<close>.
\<close>
theorem C10_verifier_total_out_of_range:
  "isSatisfied c a \<noteq> None
   \<and> (int (length a) \<le> \<bar>l\<bar> \<longrightarrow> isSatisfied (l # c) a = isSatisfied c a)
   \<and> ((\<forall>l \<in> set c. int (length a) \<le> \<bar>l\<bar>) \<longrightarrow> isSatisfied c a = Some False)
   \<and> setLiteral s lit \<noteq> None
   \<and> (int (length (assignment s)) \<le> \<bar>lit\<bar> \<longrightarrow> setLiteral s lit = Some s)
   \<and> (parsing_state n s \<and> n < \<bar>lit\<bar> \<longrightarrow> setLiteral s lit = Some s)
   \<and> verify inst s \<noteq> None"
  using isSatisfied_total isSatisfied_out_of_range isSatisfied_all_out
    setLiteral_total setLiteral_out_of_range setLiteral_beyond_count verify_total
  by blast

theorem C10_verifier_total_out_of_range_witness:
  "isSatisfied [9] [- 1, 1] = Some False
   \<and> isSatisfied [7, 9] [- 1, 1] = Some False
   \<and> Solution_new 2 = Inr \<lparr>assignment = [- 1, - 1, - 1], sol_numVars = 2\<rparr>
   \<and> setLiteral \<lparr>assignment = [- 1, - 1, - 1], sol_numVars = 2\<rparr> 1
       = Some \<lparr>assignment = [- 1, 1, - 1], sol_numVars = 2\<rparr>
   \<and> parsing_state 2 \<lparr>assignment = [- 1, 1, - 1], sol_numVars = 2\<rparr>
   \<and> setLiteral \<lparr>assignment = [- 1, 1, - 1], sol_numVars = 2\<rparr> (- 5)
       = Some \<lparr>assignment = [- 1, 1, - 1], sol_numVars = 2\<rparr>
   \<and> verify \<lparr>inst_numVars = 2, inst_numClauses = 2, inst_clauses = [[1, 5], [- 5, 2]]\<rparr>
        \<lparr>assignment = [- 1, 1, - 1], sol_numVars = 2\<rparr>
      = Some \<lparr>isSat = False, satisfiedClauses = 1, unsatisfiedClauses = 1, unsatisfiedIndices = [1]\<rparr>"
proof -
  have new: "Solution_new 2 = Inr \<lparr>assignment = [- 1, - 1, - 1], sol_numVars = 2\<rparr>"
    by (simp add: Solution_new_def numeral_eq_Suc)
  have set1: "setLiteral \<lparr>assignment = [- 1, - 1, - 1], sol_numVars = 2\<rparr> 1
      = Some \<lparr>assignment = [- 1, 1, - 1], sol_numVars = 2\<rparr>"
    by (simp add: setLiteral_def vec_set_def)
  have state: "parsing_state 2 \<lparr>assignment = [- 1, 1, - 1], sol_numVars = 2\<rparr>"
    using parsing_state.literal_set[OF parsing_state.constructed[OF new] set1] .
  show ?thesis
    using C10_verifier_total_out_of_range [of "[9]" "[- 1, 1]" 7
        "\<lparr>assignment = [- 1, 1, - 1], sol_numVars = 2\<rparr>" "- 5" 2
        "\<lparr>inst_numVars = 2, inst_numClauses = 2, inst_clauses = [[1, 5], [- 5, 2]]\<rparr>"]
      new set1 state
    by (simp add: verify_def vec_at_def)
qed

lemma verify_loop_collects:
  "length idxs \<le> 10 \<Longrightarrow> verify_loop cs a i ns nu idxs = Some (ns', nu', idxs') \<Longrightarrow>
   idxs' = take 11 (idxs @ falsified cs a i) \<and> (nu' = 0) = (nu = 0 \<and> falsified cs a i = [])"
proof (induction cs arbitrary: i ns nu idxs)
  case Nil
  then show ?case by simp
next
  case (Cons c cs)
  obtain b where b: "isSatisfied c a = Some b"
    using isSatisfied_total[of c a] by auto
  show ?case
  proof (cases b)
    case True
    with b Cons.prems have "verify_loop cs a (i + 1) (ns + 1) nu idxs = Some (ns', nu', idxs')"
      by simp
    from Cons.IH[OF Cons.prems(1) this] show ?thesis
      using b True by simp
  next
    case False
    show ?thesis
    proof (cases "length idxs = 10")
      case True
      with b False Cons.prems have "idxs' = idxs @ [i]" "nu' = nu + 1"
        by simp_all
      then show ?thesis using b False True by simp
    next
      case ne: False
      with Cons.prems(1) have lt: "length (idxs @ [i]) \<le> 10" by simp
      from b False ne Cons.prems
      have "verify_loop cs a (i + 1) ns (nu + 1) (idxs @ [i]) = Some (ns', nu', idxs')"
        by simp
      from Cons.IH[OF lt this] show ?thesis
        using b False by simp
    qed
  qed
qed

lemma falsified_empty: "(falsified cs a i = []) = (\<forall>c \<in> set cs. isSatisfied c a = Some True)"
  by (induction cs arbitrary: i) auto

lemma verify_report:
  assumes "verify inst s = Some r"
  shows "isSat r = (\<forall>c \<in> set (inst_clauses inst). isSatisfied c (assignment s) = Some True)"
    and "unsatisfiedIndices r = take 11 (falsified (inst_clauses inst) (assignment s) 0)"
proof -
  show "isSat r = (\<forall>c \<in> set (inst_clauses inst). isSatisfied c (assignment s) = Some True)"
  proof (cases "inst_clauses inst = []")
    case True
    with assms show ?thesis by (auto simp: verify_def)
  next
    case False
    with assms obtain ns nu idxs where
      l: "verify_loop (inst_clauses inst) (assignment s) 0 0 0 [] = Some (ns, nu, idxs)"
      and r: "isSat r = (nu = 0)"
      by (auto simp: verify_def split: option.splits)
    from verify_loop_collects[OF _ l] r show ?thesis
      by (simp add: falsified_empty)
  qed
  show "unsatisfiedIndices r = take 11 (falsified (inst_clauses inst) (assignment s) 0)"
  proof (cases "inst_clauses inst = []")
    case True
    with assms show ?thesis by (auto simp: verify_def)
  next
    case False
    with assms obtain ns nu idxs where
      l: "verify_loop (inst_clauses inst) (assignment s) 0 0 0 [] = Some (ns, nu, idxs)"
      and r: "unsatisfiedIndices r = idxs"
      by (auto simp: verify_def split: option.splits)
    from verify_loop_collects[OF _ l] r show ?thesis
      by simp
  qed
qed

text \<open>
  Claim C9 bounds the diagnostic list by 10 entries. The loop leaves when the list has
  more than 10 entries (\<open>if (unsatisfiedIndices.size() > 10) break\<close>), that is after the
  eleventh falsified clause: on twelve copies of the clause \<open>(1)\<close> with the solution line
  \<open>v -1 0\<close> the verdict is false and the list holds the eleven indices \<open>0 \<dots> 10\<close>.
  Lemma \<open>verify_report\<close> above gives the general picture: the verdict is exact, and the
  list is the first eleven falsified indices in clause order.
\<close>
theorem C9_eleven_indices_collected:
  "Solution_new 1 = Inr \<lparr>assignment = [- 1, - 1], sol_numVars = 1\<rparr>
   \<and> setLiteral_loop [- 1, 0] \<lparr>assignment = [- 1, - 1], sol_numVars = 1\<rparr>
       = Some \<lparr>assignment = [- 1, 0], sol_numVars = 1\<rparr>
   \<and> verify \<lparr>inst_numVars = 1, inst_numClauses = 12, inst_clauses = replicate 12 [1]\<rparr>
        \<lparr>assignment = [- 1, 0], sol_numVars = 1\<rparr>
      = Some \<lparr>isSat = False, satisfiedClauses = 0, unsatisfiedClauses = 11,
               unsatisfiedIndices = [0, 1, 2, 3, 4, 5, 6, 7, 8, 9, 10]\<rparr>"
  by (simp add: verify_def Solution_new_def vec_at_def vec_set_def setLiteral_def numeral_eq_Suc)

section \<open>Properties of the search engines\<close>

subsection \<open>Evaluation helpers\<close>

lemma list_update_numeral:
  "(x # xs)[numeral k := y] = x # xs[pred_numeral k := y]"
  by (simp add: numeral_eq_Suc)

lemma upto_1_numeral: "[1 .. numeral n] = (1::int) # [2 .. numeral n]"
  by (simp add: upto_rec1)

lemmas eval_solver =
  backtrackTo.simps propagate_loop1.simps solve_loop1.simps unitPropagation.simps solve_loop2.simps
  check_def decide_var_def selectVariable_def contains_def getValue_def assign1_def assign2_def
  unassign_def litToIdx_def toInt_def mkClause_def mkLit_def list_update_numeral upto_1_numeral
  Let_def

subsection \<open>The assignment and its trail\<close>

lemma trail_unassign [simp]: "trail (unassign a v) = trail a"
  by (simp add: unassign_def)

lemma length_vals_unassign [simp]: "length (vals (unassign a v)) = length (vals a)"
  by (simp add: unassign_def)

lemma trail_backtrackTo:
  "trail (backtrackTo a k) = (if 0 \<le> k then take (nat k) (trail a) else trail a)"
proof (induction a k rule: backtrackTo.induct)
  case (1 a position)
  show ?case
  proof (cases "0 \<le> position \<and> int (length (trail a)) > position")
    case True
    then have ne: "trail a \<noteq> []" by auto
    have "nat position < length (trail a)"
      using True by linarith
    then have "take (nat position) (butlast (trail a)) = take (nat position) (trail a)"
      by (rule take_butlast)
    with 1 True show ?thesis
      by (subst backtrackTo.simps) simp
  next
    case False
    then show ?thesis
      by (subst backtrackTo.simps) auto
  qed
qed

lemma length_trail_backtrackTo:
  "0 \<le> k \<Longrightarrow> k \<le> int (length (trail a)) \<Longrightarrow> length (trail (backtrackTo a k)) = nat k"
  by (simp add: trail_backtrackTo)

lemma length_vals_backtrackTo [simp]: "length (vals (backtrackTo a k)) = length (vals a)"
proof (induction a k rule: backtrackTo.induct)
  case (1 a position)
  then show ?case
    by (subst backtrackTo.simps) simp
qed

lemma trail_inv_new: "trail_inv (Assignment_new n)"
  by (simp add: trail_inv_def Assignment_new_def contains_def)

lemma word8_unset_neq [simp]: "(1::8 word) \<noteq> - 1" "(0::8 word) \<noteq> - 1"
  by simp_all

lemma contains_after_set:
  assumes "0 < v" "v < int (length (vals a))"
  shows "contains (a\<lparr> vals := (vals a)[nat v := (if b then 1 else 0)], trail := t \<rparr>) u
         = (u = v \<or> contains a u)"
proof (cases "u = v")
  case True
  have "nat v < length (vals a)" using assms by linarith
  then show ?thesis using True assms by (simp add: contains_def)
next
  case False
  have "0 < u \<Longrightarrow> nat u \<noteq> nat v" using False assms(1) by linarith
  then show ?thesis using False by (auto simp: contains_def)
qed

lemma trail_inv_assign2: 
  assumes "trail_inv a"
  shows "trail_inv (assign2 a v b)"
proof (cases "v \<le> 0 \<or> v \<ge> int (length (vals a)) \<or> vals a ! nat v \<noteq> - 1")
  case True
  then have "assign2 a v b = a" by (auto simp: assign2_def)
  with assms show ?thesis by simp
next
  case False
  then have r: "0 < v" "v < int (length (vals a))" and u: "vals a ! nat v = - 1" by auto
  have nc: "\<not> contains a v" using u by (simp add: contains_def)
  then have "v \<notin> set (trail a)" using assms by (simp add: trail_inv_def)
  moreover have "assign2 a v b
      = a\<lparr> vals := (vals a)[nat v := (if b then 1 else 0)], trail := trail a @ [v] \<rparr>"
    using r u by (simp add: assign2_def)
  ultimately show ?thesis
    using assms unfolding trail_inv_def by (auto simp: contains_after_set[OF r])
qed

lemma trail_inv_pop:
  assumes "trail_inv a" "trail a \<noteq> []"
  shows "trail_inv ((unassign a (last (trail a)))\<lparr> trail := butlast (trail a) \<rparr>)"
proof -
  obtain xs x where t: "trail a = xs @ [x]"
    using assms(2) by (metis append_butlast_last_id)
  have d: "distinct xs" "x \<notin> set xs" and c: "\<And>v. (v \<in> set xs \<or> v = x) = contains a v"
    using assms(1) unfolding trail_inv_def t by auto
  have cx: "contains a x" using c by blast
  have "\<And>v. (v \<in> set xs) = contains ((unassign a x)\<lparr> trail := xs \<rparr>) v"
  proof -
    fix v
    show "(v \<in> set xs) = contains ((unassign a x)\<lparr> trail := xs \<rparr>) v"
    proof (cases "v = x")
      case True
      have "nat x < length (vals a)"
        using cx by (auto simp: contains_def)
      then show ?thesis using True d cx by (simp add: contains_def unassign_def)
    next
      case False
      then have "contains ((unassign a x)\<lparr> trail := xs \<rparr>) v = contains a v"
        by (auto simp: contains_def unassign_def nth_list_update)
      with c[of v] False show ?thesis by simp
    qed
  qed
  then show ?thesis
    using d by (simp add: trail_inv_def t)
qed

lemma trail_inv_backtrackTo: "trail_inv a \<Longrightarrow> trail_inv (backtrackTo a k)"
proof (induction a k rule: backtrackTo.induct)
  case (1 a position)
  show ?case
  proof (cases "0 \<le> position \<and> int (length (trail a)) > position")
    case True
    then have "trail a \<noteq> []" by auto
    from trail_inv_pop[OF "1.prems" this] "1.IH" True show ?thesis
      by (subst backtrackTo.simps) simp
  next
    case False
    with "1.prems" show ?thesis
      by (subst backtrackTo.simps) auto
  qed
qed

lemma reachable2_inv: "reachable2 n a \<Longrightarrow> trail_inv a"
  by (induction rule: reachable2.induct)
     (simp_all add: trail_inv_new trail_inv_assign2 trail_inv_backtrackTo)

lemma assign2_noop: "contains a v \<Longrightarrow> assign2 a v b = a"
  by (simp add: assign2_def contains_def)

text \<open>
  Claim C5 says that every variable is on the trail at most once after any sequence of
  \<open>assign\<close>, \<open>unassign\<close> and \<open>backtrackTo\<close>, and that \<open>assign\<close> on a set variable changes
  nothing. In SATSolverOverOptmised.cpp \<open>assign\<close> has no guard: a second \<open>assign\<close> of
  variable 1 overwrites its value and puts it on the trail again. In both files \<open>unassign\<close>
  leaves the trail alone, so \<open>assign\<close>, \<open>unassign\<close>, \<open>assign\<close> (the sequence of the DPLL
  procedures) puts variable 1 on the trail twice even with the guarded \<open>assign\<close>.
\<close>

theorem C5_trail_duplicates_counterexample:
  "assign1 (assign1 (Assignment_new 1) 1 True) 1 False = \<lparr>vals = [- 1, 0], trail = [1, 1]\<rparr>
   \<and> assign1 (Assignment_new 1) 1 True = \<lparr>vals = [- 1, 1], trail = [1]\<rparr>
   \<and> assign2 (unassign (assign2 (Assignment_new 1) 1 True) 1) 1 False
       = \<lparr>vals = [- 1, 0], trail = [1, 1]\<rparr>"
  by (simp add: Assignment_new_def assign1_def assign2_def unassign_def numeral_eq_Suc)

text \<open>
  Claim C5, amended. With the guarded \<open>assign\<close> of SATSOLverOPtimsed2.cpp, after any
  sequence of \<open>assign\<close> and \<open>backtrackTo\<close> operations on a new \<open>Assignment\<close> every variable
  is on the trail at most once and a variable is on the trail exactly when it is set; and
  \<open>assign(v, value)\<close> on a set variable \<open>v\<close> changes neither the values nor the trail.
\<close>

theorem C5_trail_invariant_guarded_assign:
  "reachable2 n a \<Longrightarrow>
     distinct (trail a) \<and> (\<forall>v. (v \<in> set (trail a)) = contains a v)
     \<and> (contains a w \<longrightarrow> assign2 a w b = a)"
  using reachable2_inv[of n a] assign2_noop[of a w b] by (simp add: trail_inv_def)

theorem C5_trail_invariant_guarded_assign_witness:
  "trail (backtrackTo (assign2 (assign2 (Assignment_new 3) 2 True) 3 False) 1) = [2]
   \<and> distinct (trail (backtrackTo (assign2 (assign2 (Assignment_new 3) 2 True) 3 False) 1))
   \<and> contains (backtrackTo (assign2 (assign2 (Assignment_new 3) 2 True) 3 False) 1) 2
   \<and> assign2 (backtrackTo (assign2 (assign2 (Assignment_new 3) 2 True) 3 False) 1) 2 False
       = backtrackTo (assign2 (assign2 (Assignment_new 3) 2 True) 3 False) 1"
proof -
  have r: "reachable2 3 (backtrackTo (assign2 (assign2 (Assignment_new 3) 2 True) 3 False) 1)"
    by (intro reachable2.intros)
  have v: "backtrackTo (assign2 (assign2 (Assignment_new 3) 2 True) 3 False) 1
           = \<lparr>vals = [- 1, - 1, 1, - 1], trail = [2]\<rparr>"
    by (simp add: Assignment_new_def assign2_def unassign_def backtrackTo.simps numeral_eq_Suc)
  show ?thesis
    using C5_trail_invariant_guarded_assign [OF r, of 2 False]
    by (simp add: v contains_def)
qed

subsection \<open>A SAT answer of the watched-literal engine that satisfies no clause\<close>

lemma WatchedSolver_new_one_clause:
  "WatchedSolver_new [mkClause 0 [- 1, - 2, 3, - 4]] 4 =
     Some \<lparr> cdcl_clauses = [mkClause 0 [- 1, - 2, 3, - 4]], cdcl_numVars = 4,
            cdcl_assignment = \<lparr>vals = [- 1, - 1, - 1, - 1, - 1], trail = []\<rparr>,
            activity = [0, 0, 0, 0, 0], varInc = 1, varDecay = 95 / 100,
            watches = [[], [], [], [0], [], [0], [], [], [], []] \<rparr>"
  by (simp add: WatchedSolver_new_def initWatches_def watch_push_def mkClause_def mkLit_def
      toInt_def litToIdx_def Assignment_new_def numeral_eq_Suc)

text \<open>
  Claim C1 says that an assignment returned with SAT satisfies every clause. The \<open>solve\<close>
  of SATSolverOverOptmised.cpp checks the clauses when the trail is full, but when the
  check fails it falls through to the decision, finds no variable left and returns
  \<open>assignment.size() == numVars\<close>, which is true. On the formula \<open>p cnf 4 1\<close> with the clause
  \<open>-1 -2 3 -4\<close> no propagation fires (the clause is watched on \<open>-1\<close> and \<open>-2\<close> and still has
  two unassigned literals when those become false), the decisions set 1, 2, 4 to true and
  3 to false, and \<open>solve\<close> answers SAT with an assignment that falsifies the only clause.
  The budget 9999 is that of a run in which the clock is never read.
\<close>

theorem C1_watched_cdcl_sat_not_verified:
  "FastCDCLSolver_solve1 [mkClause 0 [- 1, - 2, 3, - 4]] 4 9999
     = Result True \<lparr>vals = [- 1, 1, 1, 0, 1], trail = [1, 2, 3, 4]\<rparr>
   \<and> \<not> isSatisfied1 [mkClause 0 [- 1, - 2, 3, - 4]] \<lparr>vals = [- 1, 1, 1, 0, 1], trail = [1, 2, 3, 4]\<rparr>
   \<and> \<not> verifySolution \<lparr>vals = [- 1, 1, 1, 0, 1], trail = [1, 2, 3, 4]\<rparr> [mkClause 0 [- 1, - 2, 3, - 4]]"
proof -
  have "FastCDCLSolver_solve1 [mkClause 0 [- 1, - 2, 3, - 4]] 4 9999
     = Result True \<lparr>vals = [- 1, 1, 1, 0, 1], trail = [1, 2, 3, 4]\<rparr>"
    unfolding FastCDCLSolver_solve1_def WatchedSolver_new_one_clause
    by (simp add: solve_step1_def propagate1_def on_conflict1_def eval_solver)
  moreover have "\<not> isSatisfied1 [mkClause 0 [- 1, - 2, 3, - 4]]
      \<lparr>vals = [- 1, 1, 1, 0, 1], trail = [1, 2, 3, 4]\<rparr>"
    by (simp add: eval_solver)
  moreover have "\<not> verifySolution \<lparr>vals = [- 1, 1, 1, 0, 1], trail = [1, 2, 3, 4]\<rparr>
      [mkClause 0 [- 1, - 2, 3, - 4]]"
    by (simp add: eval_solver)
  ultimately show ?thesis by blast
qed

subsection \<open>Conflict handling\<close>

lemma on_conflict1_stop:
  "length (trail (cdcl_assignment s)) \<le> 1 \<Longrightarrow>
   on_conflict1 s c tm = Stop (Result False (cdcl_assignment s))"
  by (simp add: on_conflict1_def)

lemma on_conflict2_stop:
  "length (trail (cdcl_assignment s)) \<le> 1 \<Longrightarrow>
   on_conflict2 s c tm = Stop (Result False (cdcl_assignment s))"
  by (simp add: on_conflict2_def)

lemma cdcl_assignment_decay [simp]: "cdcl_assignment (decayActivities s) = cdcl_assignment s"
  by (simp add: decayActivities_def)

lemma on_conflict1_continue:
  assumes "1 < length (trail (cdcl_assignment s))"
  shows "\<exists>s' c'. on_conflict1 s c tm = Continue s' c' tm
           \<and> trail (cdcl_assignment s') =
               (if c + 1 > 100 then []
                else take (length (trail (cdcl_assignment s)) div 2) (trail (cdcl_assignment s)))"
proof -
  have "nat (int (length (trail (cdcl_assignment s))) div 2) = length (trail (cdcl_assignment s)) div 2"
    by linarith
  then show ?thesis
    using assms by (simp add: on_conflict1_def Let_def trail_backtrackTo)
qed

lemma on_conflict2_continue:
  assumes "1 < length (trail (cdcl_assignment s))"
  shows "\<exists>s' c'. on_conflict2 s c tm = Continue s' c' tm
           \<and> trail (cdcl_assignment s') =
               (if c + 1 > 200 * (1 + (c + 1) div 1000) then []
                else take (length (trail (cdcl_assignment s)) - 5) (trail (cdcl_assignment s)))"
proof -
  have "nat (max 0 (int (length (trail (cdcl_assignment s))) - 5)) = length (trail (cdcl_assignment s)) - 5"
    by linarith
  then show ?thesis
    using assms by (simp add: on_conflict2_def Let_def trail_backtrackTo)
qed

lemma solve_loop1_stop:
  "d < 1000000 \<Longrightarrow> solve_step1 s c (d + 1) tm = Stop r \<Longrightarrow> solve_loop1 s c d tm = r"
  by (subst solve_loop1.simps) simp

lemma solve_loop2_stop:
  "d < 5000000 \<Longrightarrow> solve_step2 s c (d + 1) tm = Stop r \<Longrightarrow> solve_loop2 s c d tm = r"
  by (subst solve_loop2.simps) simp

lemma FastCDCLSolver_new2_two_clauses:
  "FastCDCLSolver_new2 [mkClause 0 [1, 2], mkClause 1 [1, - 2]] 2 =
     \<lparr> cdcl_clauses = [mkClause 0 [1, 2], mkClause 1 [1, - 2]], cdcl_numVars = 2,
       cdcl_assignment = \<lparr>vals = [- 1, - 1, - 1], trail = []\<rparr>,
       activity = [0, 0, 0], varInc = 1, varDecay = 95 / 100 \<rparr>"
  by (simp add: FastCDCLSolver_new2_def Assignment_new_def numeral_eq_Suc)

text \<open>
  Claim C4 says that after a conflict with a trail longer than 1 the trail is popped to
  half its length. The re-scanning engine of SATSOLverOPtimsed2.cpp pops five entries
  instead (\<open>max(0, trail.size() - 5)\<close>): on \<open>p cnf 2 2\<close> with the clauses \<open>1 2\<close> and \<open>1 -2\<close>
  the first pass decides 1 false, the second pass propagates 2 true and meets the
  conflict with a trail of length 2, and the loop continues with the empty trail, not
  with a trail of length 1.
\<close>

theorem C4_rescan_engine_pops_five_counterexample:
  "solve_step2 (FastCDCLSolver_new2 [mkClause 0 [1, 2], mkClause 1 [1, - 2]] 2) 0 1 9999
     = Continue ((FastCDCLSolver_new2 [mkClause 0 [1, 2], mkClause 1 [1, - 2]] 2)
                   \<lparr> cdcl_assignment := \<lparr>vals = [- 1, 0, - 1], trail = [1]\<rparr> \<rparr>) 0 9997
   \<and> unitPropagation ((FastCDCLSolver_new2 [mkClause 0 [1, 2], mkClause 1 [1, - 2]] 2)
                   \<lparr> cdcl_assignment := \<lparr>vals = [- 1, 0, - 1], trail = [1]\<rparr> \<rparr>) 9996
     = PDone False ((FastCDCLSolver_new2 [mkClause 0 [1, 2], mkClause 1 [1, - 2]] 2)
                   \<lparr> cdcl_assignment := \<lparr>vals = [- 1, 0, 1], trail = [1, 2]\<rparr>,
                     activity := [0, 0, 1] \<rparr>) 9995
   \<and> solve_step2 ((FastCDCLSolver_new2 [mkClause 0 [1, 2], mkClause 1 [1, - 2]] 2)
                   \<lparr> cdcl_assignment := \<lparr>vals = [- 1, 0, - 1], trail = [1]\<rparr> \<rparr>) 0 2 9997
     = Continue ((FastCDCLSolver_new2 [mkClause 0 [1, 2], mkClause 1 [1, - 2]] 2)
                   \<lparr> cdcl_assignment := \<lparr>vals = [- 1, - 1, - 1], trail = []\<rparr>,
                     activity := [0, 0, 1] \<rparr>) 1 9995"
  unfolding FastCDCLSolver_new2_two_clauses
  by (simp add: solve_step2_def on_conflict2_def bumpActivity_def decayActivities_def eval_solver)

text \<open>
  Claim C4, amended. When propagation reports a conflict and the trail length is at most
  1, both engines return UNSAT and the loop ends. Otherwise the watched-literal engine
  (SATSolverOverOptmised.cpp) pops the trail down to half its length, rounded down, and
  the re-scanning engine (SATSOLverOPtimsed2.cpp) pops the last five entries (all of them
  when there are fewer); in both, when the incremented conflict counter exceeds the
  restart threshold (100, or \<open>200 (1 + conflicts / 1000)\<close>), the trail is then emptied
  before the loop continues.
\<close>

theorem C4_conflict_backtracking:
  assumes "check tm0 = Some tm1"
  shows "(propagate1 s0 tm1 = PDone False s tm \<longrightarrow>
           (length (trail (cdcl_assignment s)) \<le> 1 \<longrightarrow>
              solve_step1 s0 c (d + 1) tm0 = Stop (Result False (cdcl_assignment s))
              \<and> (d < 1000000 \<longrightarrow> solve_loop1 s0 c d tm0 = Result False (cdcl_assignment s)))
         \<and> (1 < length (trail (cdcl_assignment s)) \<longrightarrow>
              (\<exists>s' c'. solve_step1 s0 c (d + 1) tm0 = Continue s' c' tm
                 \<and> trail (cdcl_assignment s') =
                     (if c + 1 > 100 then []
                      else take (length (trail (cdcl_assignment s)) div 2)
                             (trail (cdcl_assignment s))))))
       \<and> (unitPropagation r0 tm1 = PDone False r tm \<longrightarrow>
           (length (trail (cdcl_assignment r)) \<le> 1 \<longrightarrow>
              solve_step2 r0 c (d + 1) tm0 = Stop (Result False (cdcl_assignment r))
              \<and> (d < 5000000 \<longrightarrow> solve_loop2 r0 c d tm0 = Result False (cdcl_assignment r)))
         \<and> (1 < length (trail (cdcl_assignment r)) \<longrightarrow>
              (\<exists>r' c'. solve_step2 r0 c (d + 1) tm0 = Continue r' c' tm
                 \<and> trail (cdcl_assignment r') =
                     (if c + 1 > 200 * (1 + (c + 1) div 1000) then []
                      else take (length (trail (cdcl_assignment r)) - 5)
                             (trail (cdcl_assignment r))))))"
proof -
  have s1: "solve_step1 s0 c (d + 1) tm0 = on_conflict1 s c tm"
    if "propagate1 s0 tm1 = PDone False s tm"
    using assms that by (simp add: solve_step1_def)
  have s2: "solve_step2 r0 c (d + 1) tm0 = on_conflict2 r c tm"
    if "unitPropagation r0 tm1 = PDone False r tm"
    using assms that by (simp add: solve_step2_def)
  have w: "propagate1 s0 tm1 = PDone False s tm \<longrightarrow>
           (length (trail (cdcl_assignment s)) \<le> 1 \<longrightarrow>
              solve_step1 s0 c (d + 1) tm0 = Stop (Result False (cdcl_assignment s))
              \<and> (d < 1000000 \<longrightarrow> solve_loop1 s0 c d tm0 = Result False (cdcl_assignment s)))
         \<and> (1 < length (trail (cdcl_assignment s)) \<longrightarrow>
              (\<exists>s' c'. solve_step1 s0 c (d + 1) tm0 = Continue s' c' tm
                 \<and> trail (cdcl_assignment s') =
                     (if c + 1 > 100 then []
                      else take (length (trail (cdcl_assignment s)) div 2)
                             (trail (cdcl_assignment s)))))"
  proof (intro impI conjI)
    assume p: "propagate1 s0 tm1 = PDone False s tm" and l: "length (trail (cdcl_assignment s)) \<le> 1"
    show st: "solve_step1 s0 c (d + 1) tm0 = Stop (Result False (cdcl_assignment s))"
      using s1[OF p] on_conflict1_stop[OF l] by simp
    assume "d < 1000000"
    then show "solve_loop1 s0 c d tm0 = Result False (cdcl_assignment s)"
      using st by (rule solve_loop1_stop)
  next
    assume p: "propagate1 s0 tm1 = PDone False s tm" and l: "1 < length (trail (cdcl_assignment s))"
    show "\<exists>s' c'. solve_step1 s0 c (d + 1) tm0 = Continue s' c' tm
                 \<and> trail (cdcl_assignment s') =
                     (if c + 1 > 100 then []
                      else take (length (trail (cdcl_assignment s)) div 2)
                             (trail (cdcl_assignment s)))"
      using s1[OF p] on_conflict1_continue[OF l, of c tm] by simp
  qed
  have r: "unitPropagation r0 tm1 = PDone False r tm \<longrightarrow>
           (length (trail (cdcl_assignment r)) \<le> 1 \<longrightarrow>
              solve_step2 r0 c (d + 1) tm0 = Stop (Result False (cdcl_assignment r))
              \<and> (d < 5000000 \<longrightarrow> solve_loop2 r0 c d tm0 = Result False (cdcl_assignment r)))
         \<and> (1 < length (trail (cdcl_assignment r)) \<longrightarrow>
              (\<exists>r' c'. solve_step2 r0 c (d + 1) tm0 = Continue r' c' tm
                 \<and> trail (cdcl_assignment r') =
                     (if c + 1 > 200 * (1 + (c + 1) div 1000) then []
                      else take (length (trail (cdcl_assignment r)) - 5)
                             (trail (cdcl_assignment r)))))"
  proof (intro impI conjI)
    assume p: "unitPropagation r0 tm1 = PDone False r tm" and l: "length (trail (cdcl_assignment r)) \<le> 1"
    show st: "solve_step2 r0 c (d + 1) tm0 = Stop (Result False (cdcl_assignment r))"
      using s2[OF p] on_conflict2_stop[OF l] by simp
    assume "d < 5000000"
    then show "solve_loop2 r0 c d tm0 = Result False (cdcl_assignment r)"
      using st by (rule solve_loop2_stop)
  next
    assume p: "unitPropagation r0 tm1 = PDone False r tm" and l: "1 < length (trail (cdcl_assignment r))"
    show "\<exists>r' c'. solve_step2 r0 c (d + 1) tm0 = Continue r' c' tm
                 \<and> trail (cdcl_assignment r') =
                     (if c + 1 > 200 * (1 + (c + 1) div 1000) then []
                      else take (length (trail (cdcl_assignment r)) - 5)
                             (trail (cdcl_assignment r)))"
      using s2[OF p] on_conflict2_continue[OF l, of c tm] by simp
  qed
  show ?thesis using w r by blast
qed

theorem C4_conflict_backtracking_witness:
  "solve_loop1 \<lparr> cdcl_clauses = [mkClause 0 [- 1]], cdcl_numVars = 1,
                 cdcl_assignment = \<lparr>vals = [- 1, 1], trail = [1]\<rparr>,
                 activity = [0, 0], varInc = 1, varDecay = 95 / 100,
                 watches = [[], [], [], [0]] \<rparr> 0 1 9997
     = Result False \<lparr>vals = [- 1, 1], trail = [1]\<rparr>
   \<and> solve_step2 \<lparr> cdcl_clauses = [mkClause 0 [1, 2], mkClause 1 [1, - 2]], cdcl_numVars = 2,
                   cdcl_assignment = \<lparr>vals = [- 1, 0, - 1], trail = [1]\<rparr>,
                   activity = [0, 0, 0], varInc = 1, varDecay = 95 / 100 \<rparr> 0 2 9997
     = Continue \<lparr> cdcl_clauses = [mkClause 0 [1, 2], mkClause 1 [1, - 2]], cdcl_numVars = 2,
                  cdcl_assignment = \<lparr>vals = [- 1, - 1, - 1], trail = []\<rparr>,
                  activity = [0, 0, 1], varInc = 1, varDecay = 95 / 100 \<rparr> 1 9995"
proof -
  let ?S = "\<lparr> cdcl_clauses = [mkClause 0 [- 1]], cdcl_numVars = 1,
                 cdcl_assignment = \<lparr>vals = [- 1, 1], trail = [1]\<rparr>,
                 activity = [0, 0], varInc = 1, varDecay = 95 / 100,
                 watches = [[], [], [], [0]] \<rparr>"
  let ?R = "\<lparr> cdcl_clauses = [mkClause 0 [1, 2], mkClause 1 [1, - 2]], cdcl_numVars = 2,
                   cdcl_assignment = \<lparr>vals = [- 1, 0, - 1], trail = [1]\<rparr>,
                   activity = [0, 0, 0], varInc = 1, varDecay = 95 / 100 \<rparr>"
  let ?Rc = "\<lparr> cdcl_clauses = [mkClause 0 [1, 2], mkClause 1 [1, - 2]], cdcl_numVars = 2,
                   cdcl_assignment = \<lparr>vals = [- 1, 0, 1], trail = [1, 2]\<rparr>,
                   activity = [0, 0, 1], varInc = 1, varDecay = 95 / 100 \<rparr>"
  have c: "check 9997 = Some 9996"
    by (simp add: check_def)
  have p1: "propagate1 ?S 9996 = PDone False ?S 9995"
    by (simp add: propagate1_def eval_solver)
  have p2: "unitPropagation ?R 9996 = PDone False ?Rc 9995"
    by (simp add: bumpActivity_def eval_solver)
  have st: "solve_step2 ?R 0 2 9997 = on_conflict2 ?Rc 0 9995"
    using c p2 by (simp add: solve_step2_def)
  have oc: "on_conflict2 ?Rc 0 9995 = 
     Continue \<lparr> cdcl_clauses = [mkClause 0 [1, 2], mkClause 1 [1, - 2]], cdcl_numVars = 2,
                  cdcl_assignment = \<lparr>vals = [- 1, - 1, - 1], trail = []\<rparr>,
                  activity = [0, 0, 1], varInc = 1, varDecay = 95 / 100 \<rparr> 1 9995"
    by (simp add: on_conflict2_def decayActivities_def eval_solver)
  show ?thesis
    using C4_conflict_backtracking [OF c, of ?S ?S 9995 0 1 ?R ?Rc] p1 p2 st oc
    by simp
qed

subsection \<open>The trail invariant along a CDCL run\<close>

lemma length_vals_assign2 [simp]: "length (vals (assign2 a v b)) = length (vals a)"
  by (simp add: assign2_def)

lemma assign1_eq_assign2: "\<not> contains a v \<Longrightarrow> assign1 a v b = assign2 a v b"
  by (auto simp: assign1_def assign2_def contains_def)

lemma bumpActivity_proj [simp]:
  "cdcl_assignment (bumpActivity s v) = cdcl_assignment s"
  "cdcl_numVars (bumpActivity s v) = cdcl_numVars s"
  "cdcl_clauses (bumpActivity s v) = cdcl_clauses s"
  by (simp_all add: bumpActivity_def Let_def)

lemma bumpActivity_watches [simp]: "watches (bumpActivity s v) = watches s"
  by (simp add: bumpActivity_def Let_def)

lemma decayActivities_proj [simp]:
  "cdcl_numVars (decayActivities s) = cdcl_numVars s"
  "cdcl_clauses (decayActivities s) = cdcl_clauses s"
  by (simp_all add: decayActivities_def)

lemma decayActivities_watches [simp]: "watches (decayActivities s) = watches s"
  by (simp add: decayActivities_def)

lemma cdcl_inv_bump [simp]: "cdcl_inv n (bumpActivity s v) = cdcl_inv n s"
  by (simp add: cdcl_inv_def)

lemma cdcl_inv_decay [simp]: "cdcl_inv n (decayActivities s) = cdcl_inv n s"
  by (simp add: cdcl_inv_def)

lemma cdcl_inv_assign2:
  "cdcl_inv n s \<Longrightarrow> cdcl_inv n (s\<lparr> cdcl_assignment := assign2 (cdcl_assignment s) v b \<rparr>)"
  by (simp add: cdcl_inv_def trail_inv_assign2)

lemma cdcl_inv_backtrackTo:
  "cdcl_inv n s \<Longrightarrow> cdcl_inv n (s\<lparr> cdcl_assignment := backtrackTo (cdcl_assignment s) k \<rparr>)"
  by (simp add: cdcl_inv_def trail_inv_backtrackTo)

lemma scan1_unassigned:
  "scan1 lits a ul uc = (sat, ul', uc') \<Longrightarrow>
   uc \<le> uc' \<and> (uc < uc' \<longrightarrow> \<not> contains a (var ul')) \<and> (uc = uc' \<longrightarrow> ul' = ul)"
proof (induction lits arbitrary: ul uc)
  case Nil
  then show ?case by simp
next
  case (Cons l ls)
  show ?case
  proof (cases "contains a (var l)")
    case True
    with Cons show ?thesis by (auto split: if_splits)
  next
    case False
    with Cons.prems have "scan1 ls a l (uc + 1) = (sat, ul', uc')" by simp
    from Cons.IH[OF this] False show ?thesis by auto
  qed
qed

lemma watchlist_loop1_inv:
  "cdcl_inv n s \<Longrightarrow>
   (case watchlist_loop1 wl s q of Inl s' \<Rightarrow> cdcl_inv n s' \<and> watches s' = watches s
                                           \<and> cdcl_clauses s' = cdcl_clauses s
    | Inr (s', q') \<Rightarrow> cdcl_inv n s' \<and> watches s' = watches s \<and> cdcl_clauses s' = cdcl_clauses s)"
proof (induction wl arbitrary: s q)
  case Nil
  then show ?case by simp
next
  case (Cons ci rest)
  obtain sat ul uc where sc:
    "scan1 (literals (cdcl_clauses s ! ci)) (cdcl_assignment s) \<lparr>var = 0, sign = True\<rparr> 0 = (sat, ul, uc)"
    by (cases "scan1 (literals (cdcl_clauses s ! ci)) (cdcl_assignment s) \<lparr>var = 0, sign = True\<rparr> 0") auto
  show ?case
  proof (cases "\<not> sat \<and> uc = 1")
    case True
    from scan1_unassigned[OF sc] True have nc: "\<not> contains (cdcl_assignment s) (var ul)" by simp
    let ?s2 = "bumpActivity (s\<lparr> cdcl_assignment := assign1 (cdcl_assignment s) (var ul) (sign ul) \<rparr>) (var ul)"
    have inv2: "cdcl_inv n ?s2"
      using Cons.prems by (simp add: assign1_eq_assign2[OF nc] cdcl_inv_assign2)
    have "watchlist_loop1 (ci # rest) s q
        = watchlist_loop1 rest ?s2 (q @ [if sign ul then - var ul else var ul])"
      using sc True by (simp add: Let_def)
    with Cons.IH[OF inv2, of "q @ [if sign ul then - var ul else var ul]"] show ?thesis
      by (auto split: sum.splits)
  next
    case False
    then consider "sat" | "\<not> sat" "uc = 0" | "\<not> sat" "uc \<noteq> 0" "uc \<noteq> 1" by blast
    then show ?thesis
    proof cases
      case 1
      then have "watchlist_loop1 (ci # rest) s q = watchlist_loop1 rest s q"
        using sc by (simp add: Let_def)
      with Cons.IH[OF Cons.prems, of q] show ?thesis by simp
    next
      case 2
      then have "watchlist_loop1 (ci # rest) s q = Inl s"
        using sc by (simp add: Let_def)
      with Cons.prems show ?thesis by simp
    next
      case 3
      then have "watchlist_loop1 (ci # rest) s q = watchlist_loop1 rest s q"
        using sc by (simp add: Let_def)
      with Cons.IH[OF Cons.prems, of q] show ?thesis by simp
    qed
  qed
qed

lemma propagate_loop1_inv:
  "cdcl_inv n s \<Longrightarrow> propagate_loop1 q s tm = PDone ok s' tm' \<Longrightarrow> cdcl_inv n s'"
proof (induction q s tm rule: propagate_loop1.induct)
  case (1 propQueue s tm)
  show ?case
  proof (cases propQueue)
    case Nil
    with "1.prems" show ?thesis
      by (simp add: propagate_loop1.simps)
  next
    case (Cons falseLit rest)
    from "1.prems"(2) Cons obtain tm1 where c: "check tm = Some tm1"
      by (cases "check tm") (simp_all add: propagate_loop1.simps)
    have rng: "0 \<le> litToIdx falseLit \<and> litToIdx falseLit < int (length (watches s))"
      using "1.prems"(2) Cons c
      by (cases "0 \<le> litToIdx falseLit \<and> litToIdx falseLit < int (length (watches s))")
         (simp_all add: propagate_loop1.simps Let_def)
    let ?w = "watchlist_loop1 (watches s ! nat (litToIdx falseLit)) s rest"
    from watchlist_loop1_inv[OF "1.prems"(1), of "watches s ! nat (litToIdx falseLit)" rest]
    have wi: "case ?w of Inl s' \<Rightarrow> cdcl_inv n s' | Inr (s', q') \<Rightarrow> cdcl_inv n s'"
      by (auto split: sum.splits)
    show ?thesis
    proof (cases ?w)
      case (Inl s1)
      with "1.prems"(2) Cons c rng have "s' = s1"
        by (simp add: propagate_loop1.simps Let_def)
      with wi Inl show ?thesis by simp
    next
      case (Inr p)
      obtain s1 q1 where p: "p = (s1, q1)" by (cases p)
      from "1.prems"(2) Cons c rng Inr p have rec: "propagate_loop1 q1 s1 tm1 = PDone ok s' tm'"
        by (simp add: propagate_loop1.simps Let_def)
      have i1: "cdcl_inv n s1" using wi Inr p by simp
      show ?thesis
        using "1.IH"[OF Cons c refl _ Inr p[symmetric] i1 rec] rng by simp
    qed
  qed
qed

lemma propagate1_inv:
  "cdcl_inv n s \<Longrightarrow> propagate1 s tm = PDone ok s' tm' \<Longrightarrow> cdcl_inv n s'"
  using propagate_loop1_inv[of n s _ tm ok s' tm'] by (simp add: propagate1_def Let_def)

lemma selectVariable_loop_result:
  "selectVariable_loop is s bv bs = bv
   \<or> (selectVariable_loop is s bv bs \<in> set is
      \<and> \<not> contains (cdcl_assignment s) (selectVariable_loop is s bv bs))"
proof (induction "is" arbitrary: bv bs)
  case Nil
  show ?case by simp
next
  case (Cons i rest)
  show ?case
  proof (cases "\<not> contains (cdcl_assignment s) i \<and> activity s ! nat i > bs")
    case True
    then show ?thesis
      using Cons[of i "activity s ! nat i"] by auto
  next
    case False
    then show ?thesis
      using Cons[of bv bs] by auto
  qed
qed

lemma first_unset_result:
  "first_unset is a = r \<Longrightarrow>
   (r = - 1 \<and> (\<forall>i \<in> set is. i \<noteq> - 1 \<longrightarrow> contains a i)) \<or> (r \<in> set is \<and> \<not> contains a r)"
  by (induction "is") (auto split: if_splits)

lemma decide_var_unset:
  "decide_var s = v \<Longrightarrow> v \<noteq> - 1 \<Longrightarrow> \<not> contains (cdcl_assignment s) v"
  using selectVariable_loop_result[of "[1 .. cdcl_numVars s]" s "- 1" "- 1"]
    first_unset_result[of "[1 .. cdcl_numVars s]" "cdcl_assignment s" v]
  by (auto simp: decide_var_def selectVariable_def Let_def split: if_splits)

lemma decide_var_none:
  assumes "decide_var s = - 1"
  shows "\<forall>i. 1 \<le> i \<and> i \<le> cdcl_numVars s \<longrightarrow> contains (cdcl_assignment s) i"
proof -
  have "first_unset [1 .. cdcl_numVars s] (cdcl_assignment s) = - 1"
    using assms by (auto simp: decide_var_def Let_def split: if_splits)
  from first_unset_result[OF this] show ?thesis by auto
qed

lemma full_trail:
  assumes "cdcl_inv n s" "0 \<le> n"
    and "\<forall>i. 1 \<le> i \<and> i \<le> n \<longrightarrow> contains (cdcl_assignment s) i"
  shows "int (length (trail (cdcl_assignment s))) = n"
proof -
  let ?a = "cdcl_assignment s"
  have d: "distinct (trail ?a)" and m: "\<And>v. (v \<in> set (trail ?a)) = contains ?a v"
    and l: "int (length (vals ?a)) = n + 1"
    using assms(1) by (auto simp: cdcl_inv_def trail_inv_def)
  have "set (trail ?a) = {1 .. n}"
  proof (rule set_eqI)
    fix v
    show "(v \<in> set (trail ?a)) = (v \<in> {1 .. n})"
      using m[of v] assms(3) l by (auto simp: contains_def)
  qed
  then have "card (set (trail ?a)) = nat n" by simp
  with d have "length (trail ?a) = nat n" by (simp add: distinct_card)
  with assms(2) show ?thesis by simp
qed

lemma solve_step1_inv:
  assumes "cdcl_inv n s" "solve_step1 s c d tm = Continue s' c' tm'"
  shows "cdcl_inv n s'"
proof -
  from assms(2) obtain tm1 where ch: "check tm = Some tm1"
    by (cases "check tm") (simp_all add: solve_step1_def)
  from assms(2) ch obtain ok s1 tm2 where p: "propagate1 s tm1 = PDone ok s1 tm2"
    by (cases "propagate1 s tm1") (simp_all add: solve_step1_def)
  have i1: "cdcl_inv n s1" by (rule propagate1_inv[OF assms(1) p])
  show ?thesis
  proof (cases ok)
    case False
    with assms(2) ch p have oc: "on_conflict1 s1 c tm2 = Continue s' c' tm'"
      by (simp add: solve_step1_def)
    then show ?thesis
      using i1 by (auto simp: on_conflict1_def Let_def cdcl_inv_def trail_inv_backtrackTo split: if_splits)
  next
    case True
    let ?v = "decide_var s1"
    from assms(2) ch p True have nv: "?v \<noteq> - 1"
      and s': "s' = s1\<lparr> cdcl_assignment := assign1 (cdcl_assignment s1) ?v (if d mod 3 = 0 then False else True) \<rparr>"
      by (auto simp: solve_step1_def Let_def split: if_splits)
    from decide_var_unset[OF refl nv] have "\<not> contains (cdcl_assignment s1) ?v" .
    then show ?thesis
      unfolding s' using i1 by (simp add: assign1_eq_assign2 cdcl_inv_assign2)
  qed
qed

lemma solve_step1_unsat:
  assumes "cdcl_inv n s" "0 \<le> n" "solve_step1 s c d tm = Stop (Result False a)"
  shows "unsat_at_conflict1 s tm"
proof -
  from assms(3) obtain tm1 where ch: "check tm = Some tm1"
    by (cases "check tm") (simp_all add: solve_step1_def)
  from assms(3) ch obtain ok s1 tm2 where p: "propagate1 s tm1 = PDone ok s1 tm2"
    by (cases "propagate1 s tm1") (simp_all add: solve_step1_def)
  have i1: "cdcl_inv n s1" by (rule propagate1_inv[OF assms(1) p])
  show ?thesis
  proof (cases ok)
    case False
    with assms(3) ch p have "on_conflict1 s1 c tm2 = Stop (Result False a)"
      by (simp add: solve_step1_def)
    then have "length (trail (cdcl_assignment s1)) \<le> 1"
      by (auto simp: on_conflict1_def Let_def split: if_splits)
    with ch p False show ?thesis by (simp add: unsat_at_conflict1_def)
  next
    case True
    with assms(3) ch p have dv: "decide_var s1 = - 1"
      and ne: "int (length (trail (cdcl_assignment s1))) \<noteq> cdcl_numVars s1"
      by (auto simp: solve_step1_def Let_def split: if_splits)
    have nn: "cdcl_numVars s1 = n" using i1 by (simp add: cdcl_inv_def)
    from full_trail[OF i1 assms(2)] decide_var_none[OF dv] nn ne show ?thesis by simp
  qed
qed

lemma passes1_inv:
  "cdcl_inv n s \<Longrightarrow> passes1 k s c d tm = Some (s', c', d', tm') \<Longrightarrow> cdcl_inv n s' \<and> d' = d + int k"
proof (induction k arbitrary: s c d tm)
  case 0
  then show ?case by simp
next
  case (Suc k)
  from Suc.prems(2) obtain s1 c1 tm1 where
    st: "solve_step1 s c (d + 1) tm = Continue s1 c1 tm1"
    and rest: "passes1 k s1 c1 (d + 1) tm1 = Some (s', c', d', tm')"
    by (auto split: if_splits step_result.splits)
  from Suc.IH[OF solve_step1_inv[OF Suc.prems(1) st] rest] show ?case by simp
qed

lemma solve_loop1_exit:
  "solve_loop1 s c d tm = r \<Longrightarrow>
   \<exists>k s' c' d' tm'. passes1 k s c d tm = Some (s', c', d', tm')
      \<and> ((\<not> d' < 1000000 \<and> r = Result False (cdcl_assignment s'))
         \<or> (d' < 1000000 \<and> solve_step1 s' c' (d' + 1) tm' = Stop r))"
proof (induction s c d tm rule: solve_loop1.induct)
  case (1 s c d tm)
  show ?case
  proof (cases "d < 1000000")
    case False
    with "1.prems" have "r = Result False (cdcl_assignment s)"
      by (simp add: solve_loop1.simps)
    with False have "passes1 0 s c d tm = Some (s, c, d, tm)
      \<and> ((\<not> d < 1000000 \<and> r = Result False (cdcl_assignment s))
         \<or> (d < 1000000 \<and> solve_step1 s c (d + 1) tm = Stop r))" by simp
    then show ?thesis by blast
  next
    case True
    show ?thesis
    proof (cases "solve_step1 s c (d + 1) tm")
      case (Stop r')
      with True "1.prems" have "r' = r" by (simp add: solve_loop1.simps)
      with True Stop have "passes1 0 s c d tm = Some (s, c, d, tm)
        \<and> ((\<not> d < 1000000 \<and> r = Result False (cdcl_assignment s))
           \<or> (d < 1000000 \<and> solve_step1 s c (d + 1) tm = Stop r))" by simp
      then show ?thesis by blast
    next
      case (Continue s1 c1 tm1)
      with True "1.prems" have "solve_loop1 s1 c1 (d + 1) tm1 = r"
        by (simp add: solve_loop1.simps)
      from "1.IH"[OF True Continue this] obtain k s' c' d' tm' where
        k: "passes1 k s1 c1 (d + 1) tm1 = Some (s', c', d', tm')"
        and e: "(\<not> d' < 1000000 \<and> r = Result False (cdcl_assignment s'))
         \<or> (d' < 1000000 \<and> solve_step1 s' c' (d' + 1) tm' = Stop r)"
        by blast
      have "passes1 (Suc k) s c d tm = Some (s', c', d', tm')"
        using True Continue k by simp
      with e show ?thesis by blast
    qed
  qed
qed

lemma clauses_loop2_inv:
  "cdcl_inv n s \<Longrightarrow>
   (case clauses_loop2 cs s ch of Inl s' \<Rightarrow> cdcl_inv n s' \<and> cdcl_clauses s' = cdcl_clauses s
    | Inr (s', ch') \<Rightarrow> cdcl_inv n s' \<and> cdcl_clauses s' = cdcl_clauses s)"
proof (induction cs arbitrary: s ch)
  case Nil
  then show ?case by simp
next
  case (Cons cl rest)
  obtain ul uc hc where sc:
    "scan2 (literals cl) (cdcl_assignment s) \<lparr>var = 0, sign = True\<rparr> 0 True = (ul, uc, hc)"
    by (cases "scan2 (literals cl) (cdcl_assignment s) \<lparr>var = 0, sign = True\<rparr> 0 True") auto
  let ?s2 = "bumpActivity (s\<lparr> cdcl_assignment := assign2 (cdcl_assignment s) (var ul) (sign ul) \<rparr>) (var ul)"
  have inv2: "cdcl_inv n ?s2"
    using Cons.prems by (simp add: cdcl_inv_assign2)
  consider (sat) "clause_isSatisfied (literals cl) (vals (cdcl_assignment s))"
    | (conf) "\<not> clause_isSatisfied (literals cl) (vals (cdcl_assignment s))" "hc \<and> uc = 0"
    | (unit) "\<not> clause_isSatisfied (literals cl) (vals (cdcl_assignment s))" "\<not> (hc \<and> uc = 0)" "uc = 1"
    | (other) "\<not> clause_isSatisfied (literals cl) (vals (cdcl_assignment s))" "\<not> (hc \<and> uc = 0)" "uc \<noteq> 1"
    by blast
  then show ?case
  proof cases
    case sat
    then have "clauses_loop2 (cl # rest) s ch = clauses_loop2 rest s ch" by simp
    with Cons.IH[OF Cons.prems, of ch] show ?thesis by simp
  next
    case conf
    then have "clauses_loop2 (cl # rest) s ch = Inl s" using sc by simp
    with Cons.prems show ?thesis by simp
  next
    case unit
    then have "clauses_loop2 (cl # rest) s ch = clauses_loop2 rest ?s2 True"
      using sc by (simp add: Let_def)
    with Cons.IH[OF inv2, of True] show ?thesis by (auto split: sum.splits)
  next
    case other
    then have "clauses_loop2 (cl # rest) s ch = clauses_loop2 rest s ch"
      using sc by (auto simp: Let_def)
    with Cons.IH[OF Cons.prems, of ch] show ?thesis by simp
  qed
qed

lemma unitPropagation_inv:
  "cdcl_inv n s \<Longrightarrow> unitPropagation s tm = PDone ok s' tm' \<Longrightarrow> cdcl_inv n s'"
proof (induction s tm rule: unitPropagation.induct)
  case (1 s tm)
  from "1.prems"(2) obtain tm1 where c: "check tm = Some tm1"
    by (cases "check tm") (simp_all add: unitPropagation.simps)
  let ?w = "clauses_loop2 (cdcl_clauses s) s False"
  from clauses_loop2_inv[OF "1.prems"(1), of "cdcl_clauses s" False]
  have wi: "case ?w of Inl s' \<Rightarrow> cdcl_inv n s' | Inr (s', q') \<Rightarrow> cdcl_inv n s'"
    by (auto split: sum.splits)
  show ?case
  proof (cases ?w)
    case (Inl s1)
    with "1.prems"(2) c have "s' = s1"
      by (simp add: unitPropagation.simps)
    with wi Inl show ?thesis by simp
  next
    case (Inr p)
    obtain s1 changed where p: "p = (s1, changed)" by (cases p)
    have i1: "cdcl_inv n s1" using wi Inr p by simp
    show ?thesis
    proof (cases changed)
      case True
      with "1.prems"(2) c Inr p have rec: "unitPropagation s1 tm1 = PDone ok s' tm'"
        by (simp add: unitPropagation.simps)
      show ?thesis
        using "1.IH"[OF c Inr p[symmetric] True i1 rec] .
    next
      case False
      with "1.prems"(2) c Inr p have "s' = s1"
        by (simp add: unitPropagation.simps)
      with i1 show ?thesis by simp
    qed
  qed
qed

lemma solve_step2_inv:
  assumes "cdcl_inv n s" "solve_step2 s c d tm = Continue s' c' tm'"
  shows "cdcl_inv n s'"
proof -
  from assms(2) obtain tm1 where ch: "check tm = Some tm1"
    by (cases "check tm") (simp_all add: solve_step2_def)
  from assms(2) ch obtain ok s1 tm2 where p: "unitPropagation s tm1 = PDone ok s1 tm2"
    by (cases "unitPropagation s tm1") (simp_all add: solve_step2_def)
  have i1: "cdcl_inv n s1" by (rule unitPropagation_inv[OF assms(1) p])
  show ?thesis
  proof (cases ok)
    case False
    with assms(2) ch p have oc: "on_conflict2 s1 c tm2 = Continue s' c' tm'"
      by (simp add: solve_step2_def)
    then show ?thesis
      using i1 by (auto simp: on_conflict2_def Let_def cdcl_inv_def trail_inv_backtrackTo split: if_splits)
  next
    case True
    with assms(2) ch p show ?thesis
      using i1
      by (auto simp: solve_step2_def Let_def cdcl_inv_backtrackTo cdcl_inv_assign2 split: if_splits)
  qed
qed

lemma solve_step2_unsat:
  assumes "cdcl_inv n s" "0 < n" "solve_step2 s c d tm = Stop (Result False a)"
  shows "unsat_at_conflict2 s tm"
proof -
  from assms(3) obtain tm1 where ch: "check tm = Some tm1"
    by (cases "check tm") (simp_all add: solve_step2_def)
  from assms(3) ch obtain ok s1 tm2 where p: "unitPropagation s tm1 = PDone ok s1 tm2"
    by (cases "unitPropagation s tm1") (simp_all add: solve_step2_def)
  have i1: "cdcl_inv n s1" by (rule unitPropagation_inv[OF assms(1) p])
  have nn: "cdcl_numVars s1 = n" using i1 by (simp add: cdcl_inv_def)
  show ?thesis
  proof (cases ok)
    case False
    with assms(3) ch p have "on_conflict2 s1 c tm2 = Stop (Result False a)"
      by (simp add: solve_step2_def)
    then have "length (trail (cdcl_assignment s1)) \<le> 1"
      by (auto simp: on_conflict2_def Let_def split: if_splits)
    with ch p False show ?thesis by (simp add: unsat_at_conflict2_def)
  next
    case True
    show ?thesis
    proof (cases "int (length (trail (cdcl_assignment s1))) = cdcl_numVars s1")
      case full: True
      then have "length (trail (cdcl_assignment s1)) > 0" using nn assms(2) by auto
      with assms(3) ch p True full show ?thesis
        by (auto simp: solve_step2_def Let_def split: if_splits)
    next
      case notfull: False
      with assms(3) ch p True have dv: "decide_var s1 = - 1"
        by (auto simp: solve_step2_def Let_def split: if_splits)
      from full_trail[OF i1 _ ] decide_var_none[OF dv] nn notfull assms(2) show ?thesis by simp
    qed
  qed
qed

lemma passes2_inv:
  "cdcl_inv n s \<Longrightarrow> passes2 k s c d tm = Some (s', c', d', tm') \<Longrightarrow> cdcl_inv n s' \<and> d' = d + int k"
proof (induction k arbitrary: s c d tm)
  case 0
  then show ?case by simp
next
  case (Suc k)
  from Suc.prems(2) obtain s1 c1 tm1 where
    st: "solve_step2 s c (d + 1) tm = Continue s1 c1 tm1"
    and rest: "passes2 k s1 c1 (d + 1) tm1 = Some (s', c', d', tm')"
    by (auto split: if_splits step_result.splits)
  from Suc.IH[OF solve_step2_inv[OF Suc.prems(1) st] rest] show ?case by simp
qed

lemma solve_loop2_exit:
  "solve_loop2 s c d tm = r \<Longrightarrow>
   \<exists>k s' c' d' tm'. passes2 k s c d tm = Some (s', c', d', tm')
      \<and> ((\<not> d' < 5000000 \<and> r = Result False (cdcl_assignment s'))
         \<or> (d' < 5000000 \<and> solve_step2 s' c' (d' + 1) tm' = Stop r))"
proof (induction s c d tm rule: solve_loop2.induct)
  case (1 s c d tm)
  show ?case
  proof (cases "d < 5000000")
    case False
    with "1.prems" have "r = Result False (cdcl_assignment s)"
      by (simp add: solve_loop2.simps)
    with False have "passes2 0 s c d tm = Some (s, c, d, tm)
      \<and> ((\<not> d < 5000000 \<and> r = Result False (cdcl_assignment s))
         \<or> (d < 5000000 \<and> solve_step2 s c (d + 1) tm = Stop r))" by simp
    then show ?thesis by blast
  next
    case True
    show ?thesis
    proof (cases "solve_step2 s c (d + 1) tm")
      case (Stop r')
      with True "1.prems" have "r' = r" by (simp add: solve_loop2.simps)
      with True Stop have "passes2 0 s c d tm = Some (s, c, d, tm)
        \<and> ((\<not> d < 5000000 \<and> r = Result False (cdcl_assignment s))
           \<or> (d < 5000000 \<and> solve_step2 s c (d + 1) tm = Stop r))" by simp
      then show ?thesis by blast
    next
      case (Continue s1 c1 tm1)
      with True "1.prems" have "solve_loop2 s1 c1 (d + 1) tm1 = r"
        by (simp add: solve_loop2.simps)
      from "1.IH"[OF True Continue this] obtain k s' c' d' tm' where
        k: "passes2 k s1 c1 (d + 1) tm1 = Some (s', c', d', tm')"
        and e: "(\<not> d' < 5000000 \<and> r = Result False (cdcl_assignment s'))
         \<or> (d' < 5000000 \<and> solve_step2 s' c' (d' + 1) tm' = Stop r)"
        by blast
      have "passes2 (Suc k) s c d tm = Some (s', c', d', tm')"
        using True Continue k by simp
      with e show ?thesis by blast
    qed
  qed
qed

lemma cdcl_inv_new1:
  "0 \<le> n \<Longrightarrow> WatchedSolver_new cls n = Some s \<Longrightarrow> cdcl_inv n s"
  using trail_inv_new[of n]
  by (auto simp: WatchedSolver_new_def cdcl_inv_def Assignment_new_def split: option.splits)

lemma cdcl_inv_new2: "0 \<le> n \<Longrightarrow> cdcl_inv n (FastCDCLSolver_new2 cls n)"
  using trail_inv_new[of n]
  by (auto simp: FastCDCLSolver_new2_def cdcl_inv_def Assignment_new_def)

text \<open>
  Claim C6, amended. For a formula that declares at least one variable, the CDCL engines
  report UNSAT (return \<open>false\<close>) in two situations only: a pass of the main loop meets a
  conflict with a trail of length at most 1, or the loop has made all its passes, 1000000
  in SATSolverOverOptmised.cpp and 5000000 in SATSOLverOPtimsed2.cpp, and the \<open>return\<close>
  after the loop answers \<open>false\<close> with the assignment of that moment.
\<close>

theorem C6_unsat_at_conflict_or_decision_cap:
  assumes "0 < nv"
  shows "(WatchedSolver_new cls nv = Some s0 \<longrightarrow>
          FastCDCLSolver_solve1 cls nv tm = Result False a \<longrightarrow>
            (\<exists>k s c tm'. passes1 k s0 0 0 tm = Some (s, c, int k, tm')
               \<and> (k = 1000000 \<and> a = cdcl_assignment s
                  \<or> k < 1000000 \<and> unsat_at_conflict1 s tm')))
       \<and> (FastCDCLSolver_solve2 cls nv tm = Result False a \<longrightarrow>
            (\<exists>k s c tm'. passes2 k (FastCDCLSolver_new2 cls nv) 0 0 tm = Some (s, c, int k, tm')
               \<and> (k = 5000000 \<and> a = cdcl_assignment s
                  \<or> k < 5000000 \<and> unsat_at_conflict2 s tm')))"
proof (intro conjI impI)
  assume new: "WatchedSolver_new cls nv = Some s0"
    and res: "FastCDCLSolver_solve1 cls nv tm = Result False a"
  from new res have "solve_loop1 s0 0 0 tm = Result False a"
    by (simp add: FastCDCLSolver_solve1_def)
  from solve_loop1_exit[OF this] obtain k s c d tm' where
    p: "passes1 k s0 0 0 tm = Some (s, c, d, tm')"
    and e: "(\<not> d < 1000000 \<and> Result False a = Result False (cdcl_assignment s))
         \<or> (d < 1000000 \<and> solve_step1 s c (d + 1) tm' = Stop (Result False a))"
    by blast
  have i0: "cdcl_inv nv s0" using cdcl_inv_new1[OF _ new] assms by simp
  from passes1_inv[OF i0 p] have i: "cdcl_inv nv s" and d: "d = int k" by simp_all
  have le: "d \<le> 1000000"
  proof (cases k)
    case 0
    with d show ?thesis by simp
  next
    case (Suc j)
    have "\<And>s c d tm r. passes1 (Suc j) s c d tm = Some r \<Longrightarrow> d + int j < 1000000"
    proof (induction j)
      case 0
      then show ?case by (auto split: if_splits)
    next
      case (Suc j)
      from Suc.prems obtain s1 c1 tm1 where "passes1 (Suc j) s1 c1 (d + 1) tm1 = Some r"
        by (auto split: if_splits step_result.splits simp del: passes1.simps(2)
            simp add: passes1.simps(2)[of "Suc j"])
      from Suc.IH[OF this] show ?case by simp
    qed
    from this[of s0 0 0 tm] p Suc d show ?thesis by simp
  qed
  show "\<exists>k s c tm'. passes1 k s0 0 0 tm = Some (s, c, int k, tm')
               \<and> (k = 1000000 \<and> a = cdcl_assignment s
                  \<or> k < 1000000 \<and> unsat_at_conflict1 s tm')"
  proof (cases "d < 1000000")
    case True
    with e have "solve_step1 s c (d + 1) tm' = Stop (Result False a)" by simp
    from solve_step1_unsat[OF i _ this] assms have "unsat_at_conflict1 s tm'" by simp
    with p d True show ?thesis
      by (intro exI[of _ k] exI[of _ s] exI[of _ c] exI[of _ tm']) simp
  next
    case False
    with e le d have "k = 1000000" "a = cdcl_assignment s" by simp_all
    with p d show ?thesis
      by (intro exI[of _ k] exI[of _ s] exI[of _ c] exI[of _ tm']) simp
  qed
next
  assume res: "FastCDCLSolver_solve2 cls nv tm = Result False a"
  then have "solve_loop2 (FastCDCLSolver_new2 cls nv) 0 0 tm = Result False a"
    by (simp add: FastCDCLSolver_solve2_def)
  from solve_loop2_exit[OF this] obtain k s c d tm' where
    p: "passes2 k (FastCDCLSolver_new2 cls nv) 0 0 tm = Some (s, c, d, tm')"
    and e: "(\<not> d < 5000000 \<and> Result False a = Result False (cdcl_assignment s))
         \<or> (d < 5000000 \<and> solve_step2 s c (d + 1) tm' = Stop (Result False a))"
    by blast
  have i0: "cdcl_inv nv (FastCDCLSolver_new2 cls nv)" using cdcl_inv_new2[of nv cls] assms by simp
  from passes2_inv[OF i0 p] have i: "cdcl_inv nv s" and d: "d = int k" by simp_all
  have le: "d \<le> 5000000"
  proof (cases k)
    case 0
    with d show ?thesis by simp
  next
    case (Suc j)
    have "\<And>s c d tm r. passes2 (Suc j) s c d tm = Some r \<Longrightarrow> d + int j < 5000000"
    proof (induction j)
      case 0
      then show ?case by (auto split: if_splits)
    next
      case (Suc j)
      from Suc.prems obtain s1 c1 tm1 where "passes2 (Suc j) s1 c1 (d + 1) tm1 = Some r"
        by (auto split: if_splits step_result.splits simp del: passes2.simps(2)
            simp add: passes2.simps(2)[of "Suc j"])
      from Suc.IH[OF this] show ?case by simp
    qed
    from this[of "FastCDCLSolver_new2 cls nv" 0 0 tm] p Suc d show ?thesis by simp
  qed
  show "\<exists>k s c tm'. passes2 k (FastCDCLSolver_new2 cls nv) 0 0 tm = Some (s, c, int k, tm')
               \<and> (k = 5000000 \<and> a = cdcl_assignment s
                  \<or> k < 5000000 \<and> unsat_at_conflict2 s tm')"
  proof (cases "d < 5000000")
    case True
    with e have "solve_step2 s c (d + 1) tm' = Stop (Result False a)" by simp
    from solve_step2_unsat[OF i assms this] have "unsat_at_conflict2 s tm'" .
    with p d True show ?thesis
      by (intro exI[of _ k] exI[of _ s] exI[of _ c] exI[of _ tm']) simp
  next
    case False
    with e le d have "k = 5000000" "a = cdcl_assignment s" by simp_all
    with p d show ?thesis
      by (intro exI[of _ k] exI[of _ s] exI[of _ c] exI[of _ tm']) simp
  qed
qed

lemma WatchedSolver_new_conflict_pair:
  "WatchedSolver_new [mkClause 0 [1], mkClause 1 [- 1]] 1 =
     Some \<lparr> cdcl_clauses = [mkClause 0 [1], mkClause 1 [- 1]], cdcl_numVars = 1,
            cdcl_assignment = \<lparr>vals = [- 1, - 1], trail = []\<rparr>,
            activity = [0, 0], varInc = 1, varDecay = 95 / 100,
            watches = [[], [], [0], [1]] \<rparr>"
  by (simp add: WatchedSolver_new_def initWatches_def watch_push_def mkClause_def mkLit_def
      toInt_def litToIdx_def Assignment_new_def numeral_eq_Suc)

lemma FastCDCLSolver_new2_conflict_pair:
  "FastCDCLSolver_new2 [mkClause 0 [1], mkClause 1 [- 1]] 1 =
     \<lparr> cdcl_clauses = [mkClause 0 [1], mkClause 1 [- 1]], cdcl_numVars = 1,
       cdcl_assignment = \<lparr>vals = [- 1, - 1], trail = []\<rparr>,
       activity = [0, 0], varInc = 1, varDecay = 95 / 100 \<rparr>"
  by (simp add: FastCDCLSolver_new2_def Assignment_new_def numeral_eq_Suc)

theorem C6_unsat_at_conflict_or_decision_cap_witness:
  "FastCDCLSolver_solve1 [mkClause 0 [1], mkClause 1 [- 1]] 1 9999
     = Result False \<lparr>vals = [- 1, 1], trail = [1]\<rparr>
   \<and> (\<exists>k s c tm'.
         passes1 k \<lparr> cdcl_clauses = [mkClause 0 [1], mkClause 1 [- 1]], cdcl_numVars = 1,
                     cdcl_assignment = \<lparr>vals = [- 1, - 1], trail = []\<rparr>,
                     activity = [0, 0], varInc = 1, varDecay = 95 / 100,
                     watches = [[], [], [0], [1]] \<rparr> 0 0 9999 = Some (s, c, int k, tm')
         \<and> (k = 1000000 \<and> \<lparr>vals = [- 1, 1], trail = [1]\<rparr> = cdcl_assignment s
            \<or> k < 1000000 \<and> unsat_at_conflict1 s tm'))
   \<and> FastCDCLSolver_solve2 [mkClause 0 [1], mkClause 1 [- 1]] 1 9999
     = Result False \<lparr>vals = [- 1, 1], trail = [1]\<rparr>
   \<and> (\<exists>k s c tm'.
         passes2 k (FastCDCLSolver_new2 [mkClause 0 [1], mkClause 1 [- 1]] 1) 0 0 9999
           = Some (s, c, int k, tm')
         \<and> (k = 5000000 \<and> \<lparr>vals = [- 1, 1], trail = [1]\<rparr> = cdcl_assignment s
            \<or> k < 5000000 \<and> unsat_at_conflict2 s tm'))"
proof -
  have r1: "FastCDCLSolver_solve1 [mkClause 0 [1], mkClause 1 [- 1]] 1 9999
     = Result False \<lparr>vals = [- 1, 1], trail = [1]\<rparr>"
    unfolding FastCDCLSolver_solve1_def WatchedSolver_new_conflict_pair
    by (simp add: solve_step1_def propagate1_def on_conflict1_def eval_solver)
  have r2: "FastCDCLSolver_solve2 [mkClause 0 [1], mkClause 1 [- 1]] 1 9999
     = Result False \<lparr>vals = [- 1, 1], trail = [1]\<rparr>"
    unfolding FastCDCLSolver_solve2_def FastCDCLSolver_new2_conflict_pair
    by (simp add: solve_step2_def on_conflict2_def bumpActivity_def eval_solver)
  show ?thesis
    using C6_unsat_at_conflict_or_decision_cap [of 1 "[mkClause 0 [1], mkClause 1 [- 1]]" _
        9999 "\<lparr>vals = [- 1, 1], trail = [1]\<rparr>"]
      WatchedSolver_new_conflict_pair r1 r2
    by simp
qed

subsection \<open>A run that ends at the decision cap\<close>

lemma decide_var_range:
  assumes "decide_var s = v" "v \<noteq> - 1"
  shows "1 \<le> v \<and> v \<le> cdcl_numVars s"
proof -
  have a: "selectVariable s = - 1 \<or> selectVariable s \<in> set [1 .. cdcl_numVars s]"
    using selectVariable_loop_result[of "[1 .. cdcl_numVars s]" s "- 1" "- 1"]
    by (auto simp: selectVariable_def)
  have b: "first_unset [1 .. cdcl_numVars s] (cdcl_assignment s) = - 1
           \<or> first_unset [1 .. cdcl_numVars s] (cdcl_assignment s) \<in> set [1 .. cdcl_numVars s]"
    using first_unset_result[OF refl, of "[1 .. cdcl_numVars s]" "cdcl_assignment s"] by blast
  from a b assms show ?thesis
    by (auto simp: decide_var_def Let_def split: if_splits)
qed

lemma four_new:
  "\<exists>s. WatchedSolver_new four_clauses 2 = Some s \<and> four_inv s"
  by (simp add: four_inv_def four_clauses_def WatchedSolver_new_def initWatches_def watch_push_def
      mkClause_def mkLit_def toInt_def litToIdx_def Assignment_new_def numeral_eq_Suc)

lemma four_step_empty:
  assumes "cdcl_clauses s = four_clauses" "cdcl_numVars s = 2"
    "watches s = [[], [], [0, 1], [2, 3], [0, 2], [1, 3]]"
    "cdcl_assignment s = \<lparr>vals = [- 1, - 1, - 1], trail = []\<rparr>"
  shows "\<exists>s' c'. solve_step1 s c d (Suc (Suc t)) = Continue s' c' (Suc t) \<and> four_inv s'"
proof -
  have p: "propagate1 s (Suc t) = PDone True s (Suc t)"
    using assms by (simp add: propagate1_def propagate_loop1.simps)
  have nosat: "\<not> (int (length (trail (cdcl_assignment s))) = cdcl_numVars s
                 \<and> isSatisfied1 (cdcl_clauses s) (cdcl_assignment s))"
    using assms by simp
  have nc: "\<not> contains (cdcl_assignment s) 1"
    using assms by (simp add: contains_def)
  have v: "decide_var s = 1 \<or> decide_var s = 2"
  proof (cases "decide_var s = - 1")
    case True
    from decide_var_none[OF True] assms(2) nc show ?thesis by auto
  next
    case False
    from decide_var_range[OF refl False] assms(2) show ?thesis by auto
  qed
  have st: "solve_step1 s c d (Suc (Suc t)) =
     Continue (s\<lparr> cdcl_assignment := assign1 (cdcl_assignment s) (decide_var s)
                      (if d mod 3 = 0 then False else True) \<rparr>) c (Suc t)"
    using p nosat v by (auto simp: solve_step1_def check_def Let_def)
  from v show ?thesis
  proof
    assume "decide_var s = 1"
    then show ?thesis
      unfolding st using assms by (simp add: four_inv_def assign1_def)
  next
    assume "decide_var s = 2"
    then show ?thesis
      unfolding st using assms by (simp add: four_inv_def assign1_def list_update_numeral)
  qed
qed

lemma four_conflict:
  assumes "cdcl_clauses s1 = four_clauses" "cdcl_numVars s1 = 2"
    "watches s1 = [[], [], [0, 1], [2, 3], [0, 2], [1, 3]]"
    "cdcl_assignment s1 = \<lparr>vals = vs, trail = [v, w]\<rparr>"
    "unassign \<lparr>vals = vs, trail = [v, w]\<rparr> w = \<lparr>vals = vs', trail = [v, w]\<rparr>"
    "unassign \<lparr>vals = vs', trail = [v]\<rparr> v = \<lparr>vals = [- 1, - 1, - 1], trail = [v]\<rparr>"
    "\<lparr>vals = vs', trail = [v]\<rparr> \<in> {\<lparr>vals = [- 1, 1, - 1], trail = [1]\<rparr>,
        \<lparr>vals = [- 1, 0, - 1], trail = [1]\<rparr>, \<lparr>vals = [- 1, - 1, 1], trail = [2]\<rparr>,
        \<lparr>vals = [- 1, - 1, 0], trail = [2]\<rparr>}"
  shows "\<exists>s' c'. on_conflict1 s1 c tm = Continue s' c' tm \<and> four_inv s'"
proof -
  have b1: "backtrackTo \<lparr>vals = vs, trail = [v, w]\<rparr> 1 = \<lparr>vals = vs', trail = [v]\<rparr>"
    using assms(5) by (simp add: backtrackTo.simps)
  have b0: "backtrackTo \<lparr>vals = vs', trail = [v]\<rparr> 0 = \<lparr>vals = [- 1, - 1, - 1], trail = []\<rparr>"
    using assms(6) by (simp add: backtrackTo.simps)
  show ?thesis
    using assms(1-4,7) by (auto simp: on_conflict1_def Let_def b1 b0 four_inv_def)
qed

lemma four_step_1T:
  assumes "cdcl_clauses s = four_clauses" "cdcl_numVars s = 2"
    "watches s = [[], [], [0, 1], [2, 3], [0, 2], [1, 3]]"
    "cdcl_assignment s = \<lparr>vals = [- 1, 1, - 1], trail = [1]\<rparr>"
  shows "\<exists>s' c'. solve_step1 s c d (Suc (Suc t)) = Continue s' c' t \<and> four_inv s'"
proof -
  let ?s1 = "bumpActivity (s\<lparr> cdcl_assignment := \<lparr>vals = [- 1, 1, 1], trail = [1, 2]\<rparr> \<rparr>) 2"
  have p: "propagate1 s (Suc t) = PDone False ?s1 t"
    using assms
    by (simp add: propagate1_def propagate_loop1.simps four_clauses_def check_def
        contains_def getValue_def assign1_def litToIdx_def mkClause_def mkLit_def
        list_update_numeral Let_def)
  have "\<exists>s' c'. on_conflict1 ?s1 c t = Continue s' c' t \<and> four_inv s'"
    by (rule four_conflict[where vs = "[- 1, 1, 1]" and v = 1 and w = 2 and vs' = "[- 1, 1, - 1]"])
       (simp_all add: assms unassign_def list_update_numeral)
  then show ?thesis
    using p by (simp add: solve_step1_def check_def)
qed

lemma four_step_1F:
  assumes "cdcl_clauses s = four_clauses" "cdcl_numVars s = 2"
    "watches s = [[], [], [0, 1], [2, 3], [0, 2], [1, 3]]"
    "cdcl_assignment s = \<lparr>vals = [- 1, 0, - 1], trail = [1]\<rparr>"
  shows "\<exists>s' c'. solve_step1 s c d (Suc (Suc t)) = Continue s' c' t \<and> four_inv s'"
proof -
  let ?s1 = "bumpActivity (s\<lparr> cdcl_assignment := \<lparr>vals = [- 1, 0, 1], trail = [1, 2]\<rparr> \<rparr>) 2"
  have p: "propagate1 s (Suc t) = PDone False ?s1 t"
    using assms
    by (simp add: propagate1_def propagate_loop1.simps four_clauses_def check_def
        contains_def getValue_def assign1_def litToIdx_def mkClause_def mkLit_def
        list_update_numeral Let_def)
  have "\<exists>s' c'. on_conflict1 ?s1 c t = Continue s' c' t \<and> four_inv s'"
    by (rule four_conflict[where vs = "[- 1, 0, 1]" and v = 1 and w = 2 and vs' = "[- 1, 0, - 1]"])
       (simp_all add: assms unassign_def list_update_numeral)
  then show ?thesis
    using p by (simp add: solve_step1_def check_def)
qed

lemma four_step_2T:
  assumes "cdcl_clauses s = four_clauses" "cdcl_numVars s = 2"
    "watches s = [[], [], [0, 1], [2, 3], [0, 2], [1, 3]]"
    "cdcl_assignment s = \<lparr>vals = [- 1, - 1, 1], trail = [2]\<rparr>"
  shows "\<exists>s' c'. solve_step1 s c d (Suc (Suc t)) = Continue s' c' t \<and> four_inv s'"
proof -
  let ?s1 = "bumpActivity (s\<lparr> cdcl_assignment := \<lparr>vals = [- 1, 1, 1], trail = [2, 1]\<rparr> \<rparr>) 1"
  have p: "propagate1 s (Suc t) = PDone False ?s1 t"
    using assms
    by (simp add: propagate1_def propagate_loop1.simps four_clauses_def check_def
        contains_def getValue_def assign1_def litToIdx_def mkClause_def mkLit_def
        list_update_numeral Let_def)
  have "\<exists>s' c'. on_conflict1 ?s1 c t = Continue s' c' t \<and> four_inv s'"
    by (rule four_conflict[where vs = "[- 1, 1, 1]" and v = 2 and w = 1 and vs' = "[- 1, - 1, 1]"])
       (simp_all add: assms unassign_def list_update_numeral)
  then show ?thesis
    using p by (simp add: solve_step1_def check_def)
qed

lemma four_step_2F:
  assumes "cdcl_clauses s = four_clauses" "cdcl_numVars s = 2"
    "watches s = [[], [], [0, 1], [2, 3], [0, 2], [1, 3]]"
    "cdcl_assignment s = \<lparr>vals = [- 1, - 1, 0], trail = [2]\<rparr>"
  shows "\<exists>s' c'. solve_step1 s c d (Suc (Suc t)) = Continue s' c' t \<and> four_inv s'"
proof -
  let ?s1 = "bumpActivity (s\<lparr> cdcl_assignment := \<lparr>vals = [- 1, 1, 0], trail = [2, 1]\<rparr> \<rparr>) 1"
  have p: "propagate1 s (Suc t) = PDone False ?s1 t"
    using assms
    by (simp add: propagate1_def propagate_loop1.simps four_clauses_def check_def
        contains_def getValue_def assign1_def litToIdx_def mkClause_def mkLit_def
        list_update_numeral Let_def)
  have "\<exists>s' c'. on_conflict1 ?s1 c t = Continue s' c' t \<and> four_inv s'"
    by (rule four_conflict[where vs = "[- 1, 1, 0]" and v = 2 and w = 1 and vs' = "[- 1, - 1, 0]"])
       (simp_all add: assms unassign_def list_update_numeral)
  then show ?thesis
    using p by (simp add: solve_step1_def check_def)
qed

lemma four_step:
  assumes "four_inv s"
  shows "\<exists>s' c' tm'. solve_step1 s c d (Suc (Suc t)) = Continue s' c' tm' \<and> four_inv s' \<and> t \<le> tm'"
proof -
  from assms have f: "cdcl_clauses s = four_clauses" "cdcl_numVars s = 2"
    "watches s = [[], [], [0, 1], [2, 3], [0, 2], [1, 3]]"
    by (simp_all add: four_inv_def)
  from assms consider
      "cdcl_assignment s = \<lparr>vals = [- 1, - 1, - 1], trail = []\<rparr>"
    | "cdcl_assignment s = \<lparr>vals = [- 1, 1, - 1], trail = [1]\<rparr>"
    | "cdcl_assignment s = \<lparr>vals = [- 1, 0, - 1], trail = [1]\<rparr>"
    | "cdcl_assignment s = \<lparr>vals = [- 1, - 1, 1], trail = [2]\<rparr>"
    | "cdcl_assignment s = \<lparr>vals = [- 1, - 1, 0], trail = [2]\<rparr>"
    unfolding four_inv_def by blast
  then show ?thesis
  proof cases
    case 1
    from four_step_empty[OF f 1, of c d t] show ?thesis by force
  next
    case 2
    from four_step_1T[OF f 2, of c d t] show ?thesis by force
  next
    case 3
    from four_step_1F[OF f 3, of c d t] show ?thesis by force
  next
    case 4
    from four_step_2T[OF f 4, of c d t] show ?thesis by force
  next
    case 5
    from four_step_2F[OF f 5, of c d t] show ?thesis by force
  qed
qed

lemma four_passes:
  "four_inv s \<Longrightarrow> d + int n \<le> 1000000 \<Longrightarrow> 2 * n \<le> tm \<Longrightarrow>
   \<exists>s' c' tm'. passes1 n s c d tm = Some (s', c', d + int n, tm') \<and> four_inv s'"
proof (induction n arbitrary: s c d tm)
  case 0
  then show ?case by simp
next
  case (Suc n)
  from Suc.prems(3) obtain t where tm: "tm = Suc (Suc t)" and t: "2 * n \<le> t"
    by (cases tm; cases "tm - 1") auto
  from four_step[OF Suc.prems(1), of c "d + 1" t] obtain s1 c1 tm1 where
    st: "solve_step1 s c (d + 1) (Suc (Suc t)) = Continue s1 c1 tm1"
    and i1: "four_inv s1" and t1: "t \<le> tm1"
    by blast
  have "d + 1 + int n \<le> 1000000" using Suc.prems(2) by simp
  from Suc.IH[OF i1 this, of tm1 c1] t t1 obtain s' c' tm' where
    "passes1 n s1 c1 (d + 1) tm1 = Some (s', c', d + 1 + int n, tm')" "four_inv s'"
    by auto
  moreover have "d < 1000000" using Suc.prems(2) by simp
  ultimately show ?case
    using st tm by simp
qed

lemma solve_loop1_passes:
  "passes1 n s c d tm = Some (s', c', d', tm') \<Longrightarrow>
   solve_loop1 s c d tm = solve_loop1 s' c' d' tm'"
proof (induction n arbitrary: s c d tm)
  case 0
  then show ?case by simp
next
  case (Suc n)
  from Suc.prems obtain s1 c1 tm1 where lt: "d < 1000000"
    and st: "solve_step1 s c (d + 1) tm = Continue s1 c1 tm1"
    and rest: "passes1 n s1 c1 (d + 1) tm1 = Some (s', c', d', tm')"
    by (auto split: if_splits step_result.splits)
  have "solve_loop1 s c d tm = solve_loop1 s1 c1 (d + 1) tm1"
    using lt st by (subst solve_loop1.simps) simp
  with Suc.IH[OF rest] show ?case by simp
qed

text \<open>
  Claim C6 says that the CDCL engine reports UNSAT at a conflict with a trail of length
  at most 1 and nowhere else. On \<open>p cnf 2 4\<close> with the clauses \<open>1 2\<close>, \<open>1 -2\<close>, \<open>-1 2\<close>,
  \<open>-1 -2\<close> the loop of SATSolverOverOptmised.cpp starts every pass with an empty trail or
  with one decided variable. From the empty trail it decides a variable; with one
  variable decided, propagation sets the other one and meets a conflict with a trail of
  length 2, which is halved back to length 1 (or emptied by a restart). No pass returns,
  so the loop makes all of its 1000000 passes, and the \<open>return\<close> after the loop reports
  UNSAT. Two calls of the guard per pass suffice, so a budget of 2000000 is enough.
\<close>

theorem C6_decision_cap_reports_unsat_counterexample:
  "(case WatchedSolver_new four_clauses 2 of
      None \<Rightarrow> False
    | Some s0 \<Rightarrow>
        (case passes1 1000000 s0 0 0 2000000 of
           None \<Rightarrow> False
         | Some (s, c, d, tm') \<Rightarrow>
             d = 1000000
             \<and> FastCDCLSolver_solve1 four_clauses 2 2000000 = Result False (cdcl_assignment s)))"
proof -
  obtain s0 where new: "WatchedSolver_new four_clauses 2 = Some s0" and i0: "four_inv s0"
    using four_new by blast
  have "\<exists>s' c' tm'. passes1 1000000 s0 0 0 2000000 = Some (s', c', 0 + int 1000000, tm') \<and> four_inv s'"
    by (rule four_passes[OF i0]) simp_all
  then obtain s c tm' where p: "passes1 1000000 s0 0 0 2000000 = Some (s, c, 1000000, tm')"
    by auto
  have "solve_loop1 s0 0 0 2000000 = solve_loop1 s c 1000000 tm'"
    by (rule solve_loop1_passes[OF p])
  also have "\<dots> = Result False (cdcl_assignment s)"
    by (subst solve_loop1.simps) simp
  finally show ?thesis
    using new p by (simp add: FastCDCLSolver_solve1_def)
qed

section \<open>SAT answers that are verified\<close>

lemma dpll_sound:
  "dpll satisfied select assign a tm = Some (True, a', tm') \<Longrightarrow> satisfied a'"
proof (induction satisfied select assign a tm arbitrary: a' tm' rule: dpll.induct)
  case (1 satisfied select assign a tm)
  from "1.prems" obtain tm1 where c: "check tm = Some tm1"
    by (cases "check tm") (simp_all add: dpll.simps)
  show ?case
  proof (cases "satisfied a")
    case True
    with "1.prems" c show ?thesis by (simp add: dpll.simps)
  next
    case ns: False
    let ?v = "select a"
    from "1.prems" c ns have nv: "?v \<noteq> - 1"
      by (auto simp: dpll.simps Let_def split: if_splits)
    from "1.prems" c ns nv obtain r1 a1 tm2 where
      d1: "dpll satisfied select assign (assign a ?v True) tm1 = Some (r1, a1, tm2)"
      by (cases "dpll satisfied select assign (assign a ?v True) tm1")
         (auto simp: dpll.simps[of satisfied select assign a tm] Let_def)
    show ?thesis
    proof (cases r1)
      case True
      with "1.prems" c ns nv d1 have "a' = a1"
        by (simp add: dpll.simps[of satisfied select assign a tm] Let_def)
      with "1.IH"(1)[OF c ns refl nv] d1 True show ?thesis by simp
    next
      case False
      with "1.prems" c ns nv d1 obtain r2 a2 tm3 where
        d2: "dpll satisfied select assign (assign (unassign a1 ?v) ?v False) tm2 = Some (r2, a2, tm3)"
        by (cases "dpll satisfied select assign (assign (unassign a1 ?v) ?v False) tm2")
           (auto simp: dpll.simps[of satisfied select assign a tm] Let_def)
      from "1.prems" c ns nv d1 False d2 have "r2" "a' = a2"
        by (auto simp: dpll.simps[of satisfied select assign a tm] Let_def split: if_splits)
      with "1.IH"(2)[OF c ns refl nv d1 refl refl False] d2 show ?thesis by simp
    qed
  qed
qed

lemma dpll_solvers_sound:
  "NaiveSolver_solve1 cls nv tm = Result True a \<Longrightarrow> isSatisfied1 cls a"
  "NaiveSolver_solve2 cls nv tm = Result True a \<Longrightarrow> verifySolution a cls"
  "MOMSSolver_solve1 order cls nv tm = Result True a \<Longrightarrow> isSatisfied1 cls a"
  "MOMSSolver_solve2 order cls nv tm = Result True a \<Longrightarrow> verifySolution a cls"
  unfolding NaiveSolver_solve1_def NaiveSolver_solve2_def MOMSSolver_solve1_def
    MOMSSolver_solve2_def dpll_outcome_def
  by (auto split: option.splits dest: dpll_sound)

lemma clauses_loop2_clauses:
  "(case clauses_loop2 cs s ch of Inl s' \<Rightarrow> cdcl_clauses s' = cdcl_clauses s
    | Inr (s', ch') \<Rightarrow> cdcl_clauses s' = cdcl_clauses s)"
proof (induction cs arbitrary: s ch)
  case Nil
  show ?case by simp
next
  case (Cons cl rest)
  obtain ul uc hc where sc:
    "scan2 (literals cl) (cdcl_assignment s) \<lparr>var = 0, sign = True\<rparr> 0 True = (ul, uc, hc)"
    by (cases "scan2 (literals cl) (cdcl_assignment s) \<lparr>var = 0, sign = True\<rparr> 0 True") auto
  let ?s2 = "bumpActivity (s\<lparr> cdcl_assignment := assign2 (cdcl_assignment s) (var ul) (sign ul) \<rparr>) (var ul)"
  consider (sat) "clause_isSatisfied (literals cl) (vals (cdcl_assignment s))"
    | (conf) "\<not> clause_isSatisfied (literals cl) (vals (cdcl_assignment s))" "hc \<and> uc = 0"
    | (unit) "\<not> clause_isSatisfied (literals cl) (vals (cdcl_assignment s))" "\<not> (hc \<and> uc = 0)" "uc = 1"
    | (other) "\<not> clause_isSatisfied (literals cl) (vals (cdcl_assignment s))" "\<not> (hc \<and> uc = 0)" "uc \<noteq> 1"
    by blast
  then show ?case
  proof cases
    case sat
    then have "clauses_loop2 (cl # rest) s ch = clauses_loop2 rest s ch" by simp
    with Cons[of s ch] show ?thesis by simp
  next
    case conf
    then have "clauses_loop2 (cl # rest) s ch = Inl s" using sc by simp
    then show ?thesis by simp
  next
    case unit
    then have "clauses_loop2 (cl # rest) s ch = clauses_loop2 rest ?s2 True"
      using sc by (simp add: Let_def)
    with Cons[of ?s2 True] show ?thesis by (auto split: sum.splits)
  next
    case other
    then have "clauses_loop2 (cl # rest) s ch = clauses_loop2 rest s ch"
      using sc by (auto simp: Let_def)
    with Cons[of s ch] show ?thesis by simp
  qed
qed

lemma unitPropagation_clauses:
  "unitPropagation s tm = PDone ok s' tm' \<Longrightarrow> cdcl_clauses s' = cdcl_clauses s"
proof (induction s tm rule: unitPropagation.induct)
  case (1 s tm)
  from "1.prems" obtain tm1 where c: "check tm = Some tm1"
    by (cases "check tm") (simp_all add: unitPropagation.simps)
  let ?w = "clauses_loop2 (cdcl_clauses s) s False"
  have wi: "case ?w of Inl s' \<Rightarrow> cdcl_clauses s' = cdcl_clauses s
            | Inr (s', q') \<Rightarrow> cdcl_clauses s' = cdcl_clauses s"
    by (rule clauses_loop2_clauses)
  show ?case
  proof (cases ?w)
    case (Inl s1)
    with "1.prems" c have "s' = s1" by (simp add: unitPropagation.simps)
    with wi Inl show ?thesis by simp
  next
    case (Inr p)
    obtain s1 changed where p: "p = (s1, changed)" by (cases p)
    have e1: "cdcl_clauses s1 = cdcl_clauses s" using wi Inr p by simp
    show ?thesis
    proof (cases changed)
      case True
      with "1.prems" c Inr p have rec: "unitPropagation s1 tm1 = PDone ok s' tm'"
        by (simp add: unitPropagation.simps)
      from "1.IH"[OF c Inr p[symmetric] True rec] e1 show ?thesis by simp
    next
      case False
      with "1.prems" c Inr p have "s' = s1" by (simp add: unitPropagation.simps)
      with e1 show ?thesis by simp
    qed
  qed
qed

lemma solve_step2_clauses:
  "solve_step2 s c d tm = Continue s' c' tm' \<Longrightarrow> cdcl_clauses s' = cdcl_clauses s"
proof -
  assume st: "solve_step2 s c d tm = Continue s' c' tm'"
  then obtain tm1 where ch: "check tm = Some tm1"
    by (cases "check tm") (simp_all add: solve_step2_def)
  from st ch obtain ok s1 tm2 where p: "unitPropagation s tm1 = PDone ok s1 tm2"
    by (cases "unitPropagation s tm1") (simp_all add: solve_step2_def)
  from unitPropagation_clauses[OF p] have e: "cdcl_clauses s1 = cdcl_clauses s" .
  from st ch p e show ?thesis
    by (auto simp: solve_step2_def on_conflict2_def Let_def split: if_splits)
qed

lemma solve_step2_sound:
  "solve_step2 s c d tm = Stop (Result True a) \<Longrightarrow> verifySolution a (cdcl_clauses s)"
proof -
  assume st: "solve_step2 s c d tm = Stop (Result True a)"
  then obtain tm1 where ch: "check tm = Some tm1"
    by (cases "check tm") (simp_all add: solve_step2_def)
  from st ch obtain ok s1 tm2 where p: "unitPropagation s tm1 = PDone ok s1 tm2"
    by (cases "unitPropagation s tm1") (simp_all add: solve_step2_def)
  from unitPropagation_clauses[OF p] have e: "cdcl_clauses s1 = cdcl_clauses s" .
  from st ch p e show ?thesis
    by (auto simp: solve_step2_def on_conflict2_def Let_def split: if_splits)
qed

lemma passes2_clauses:
  "passes2 k s c d tm = Some (s', c', d', tm') \<Longrightarrow> cdcl_clauses s' = cdcl_clauses s"
proof (induction k arbitrary: s c d tm)
  case 0
  then show ?case by simp
next
  case (Suc k)
  from Suc.prems obtain s1 c1 tm1 where
    st: "solve_step2 s c (d + 1) tm = Continue s1 c1 tm1"
    and rest: "passes2 k s1 c1 (d + 1) tm1 = Some (s', c', d', tm')"
    by (auto split: if_splits step_result.splits)
  from Suc.IH[OF rest] solve_step2_clauses[OF st] show ?case by simp
qed

lemma FastCDCLSolver_solve2_sound:
  assumes "FastCDCLSolver_solve2 cls nv tm = Result True a"
  shows "verifySolution a cls"
proof -
  from assms have "solve_loop2 (FastCDCLSolver_new2 cls nv) 0 0 tm = Result True a"
    by (simp add: FastCDCLSolver_solve2_def)
  from solve_loop2_exit[OF this] obtain k s c d tm' where
    p: "passes2 k (FastCDCLSolver_new2 cls nv) 0 0 tm = Some (s, c, d, tm')"
    and st: "solve_step2 s c (d + 1) tm' = Stop (Result True a)"
    by auto
  from passes2_clauses[OF p] have "cdcl_clauses s = cls"
    by (simp add: FastCDCLSolver_new2_def)
  with solve_step2_sound[OF st] show ?thesis by simp
qed

end
